theory Spec2Isabelle
  imports Complex_Main "HOL-Library.Log_Nat"
begin

section \<open>Python strings\<close>

text \<open>
  A Python \<open>str\<close> is modelled as a \<open>string\<close> whose characters are the code points
  U+0000 to U+00FF; the classification of a character follows CPython's Unicode tables
  on that range. Code points above U+00FF are outside the model.
\<close>

text \<open>
  The exceptions the program meets. \<open>JSONDecodeError\<close> is a subclass of \<open>ValueError\<close>;
  \<open>Exception\<close> stands for any other exception, with its message.
\<close>

datatype error =
    IndexError
  | ValueError string
  | JSONDecodeError string
  | Exception string

fun str_error :: "error \<Rightarrow> string" where
  "str_error IndexError = ''string index out of range''"
| "str_error (ValueError m) = m"
| "str_error (JSONDecodeError m) = m"
| "str_error (Exception m) = m"

definition code :: "char \<Rightarrow> nat" where
  "code c = of_char c"

text \<open>\<open>str.isspace\<close> on one character: TAB to CR, FS to US, SPACE, NEL, NBSP.\<close>

definition char_isspace :: "char \<Rightarrow> bool" where
  "char_isspace c =
     ((9 \<le> code c \<and> code c \<le> 13) \<or> (28 \<le> code c \<and> code c \<le> 32)
      \<or> code c = 133 \<or> code c = 160)"

text \<open>The Unicode property Uppercase: A to Z, U+00C0 to U+00D6, U+00D8 to U+00DE.\<close>

definition char_isupper :: "char \<Rightarrow> bool" where
  "char_isupper c =
     ((65 \<le> code c \<and> code c \<le> 90) \<or> (192 \<le> code c \<and> code c \<le> 214)
      \<or> (216 \<le> code c \<and> code c \<le> 222))"

text \<open>
  The Unicode property Lowercase: a to z, U+00AA, U+00B5, U+00BA, U+00DF to U+00F6,
  U+00F8 to U+00FF.
\<close>

definition char_islower :: "char \<Rightarrow> bool" where
  "char_islower c =
     ((97 \<le> code c \<and> code c \<le> 122) \<or> code c = 170 \<or> code c = 181 \<or> code c = 186
      \<or> (223 \<le> code c \<and> code c \<le> 246) \<or> (248 \<le> code c \<and> code c \<le> 255))"

text \<open>No character up to U+00FF has the category Lt (titlecase).\<close>

definition char_istitle :: "char \<Rightarrow> bool" where
  "char_istitle c = False"

text \<open>\<open>str.isdigit\<close> on one character: 0 to 9 and the superscripts U+00B2, U+00B3, U+00B9.\<close>

definition char_isdigit :: "char \<Rightarrow> bool" where
  "char_isdigit c =
     ((48 \<le> code c \<and> code c \<le> 57) \<or> code c = 178 \<or> code c = 179 \<or> code c = 185)"

text \<open>The decimal digits (category Nd), which \<open>\d\<close> matches: 0 to 9.\<close>

definition char_isdecimal :: "char \<Rightarrow> bool" where
  "char_isdecimal c = (48 \<le> code c \<and> code c \<le> 57)"

text \<open>\<open>s.strip()\<close>: whitespace removed at both ends.\<close>

definition strip :: "string \<Rightarrow> string" where
  "strip s = rev (dropWhile char_isspace (rev (dropWhile char_isspace s)))"

text \<open>
  \<open>s.split()\<close>: the maximal runs of non-whitespace characters. The first argument is
  the word read so far.
\<close>

fun split_words :: "string \<Rightarrow> string \<Rightarrow> string list" where
  "split_words cur [] = (if cur = [] then [] else [cur])"
| "split_words cur (c # cs) =
     (if char_isspace c
      then (if cur = [] then split_words [] cs else cur # split_words [] cs)
      else split_words (cur @ [c]) cs)"

definition split :: "string \<Rightarrow> string list" where
  "split s = split_words [] s"

text \<open>\<open>s.split(sep)\<close> for a separator of one character: never an empty list.\<close>

fun split_on :: "char \<Rightarrow> string \<Rightarrow> string \<Rightarrow> string list" where
  "split_on sep cur [] = [cur]"
| "split_on sep cur (c # cs) =
     (if c = sep then cur # split_on sep [] cs else split_on sep (cur @ [c]) cs)"

text \<open>\<open>sep.join(xs)\<close>.\<close>

fun join :: "string \<Rightarrow> string list \<Rightarrow> string" where
  "join sep [] = []"
| "join sep [x] = x"
| "join sep (x # y # ys) = x @ sep @ join sep (y # ys)"

text \<open>\<open>s.startswith(p)\<close>, \<open>s.endswith(p)\<close> and \<open>p in s\<close>.\<close>

fun startswith :: "string \<Rightarrow> string \<Rightarrow> bool" where
  "startswith s [] = True"
| "startswith [] (p # ps) = False"
| "startswith (c # cs) (p # ps) = (c = p \<and> startswith cs ps)"

definition endswith :: "string \<Rightarrow> string \<Rightarrow> bool" where
  "endswith s p = startswith (rev s) (rev p)"

fun contains :: "string \<Rightarrow> string \<Rightarrow> bool" where
  "contains p [] = (p = [])"
| "contains p (c # cs) = (startswith (c # cs) p \<or> contains p cs)"

text \<open>
  \<open>s.isupper()\<close>: no lowercase or titlecase character and at least one uppercase one.
  CPython answers a string of one character from that character alone, which agrees
  with the loop on this range.
\<close>

definition isupper :: "string \<Rightarrow> bool" where
  "isupper s =
     ((\<forall>c \<in> set s. \<not> (char_islower c \<or> char_istitle c)) \<and> (\<exists>c \<in> set s. char_isupper c))"

text \<open>
  \<open>s.istitle()\<close>: CPython's loop, with the flags \<open>cased\<close> and \<open>previous_is_cased\<close>: an
  uppercase character may only follow an uncased one, a lowercase character only a
  cased one, and there is at least one cased character.
\<close>

fun istitle_loop :: "bool \<Rightarrow> bool \<Rightarrow> string \<Rightarrow> bool" where
  "istitle_loop cased prev [] = cased"
| "istitle_loop cased prev (c # cs) =
     (if char_isupper c \<or> char_istitle c
      then (if prev then False else istitle_loop True True cs)
      else if char_islower c
      then (if \<not> prev then False else istitle_loop True True cs)
      else istitle_loop cased False cs)"

definition istitle :: "string \<Rightarrow> bool" where
  "istitle s = istitle_loop False False s"


section \<open>Text Structurer: \<open>text_extractor.py\<close>\<close>

text \<open>
  \<open>TextExtractor._is_heading\<close>. The guard \<open>if not line\<close> comes before the strip; the last
  disjunct reads \<open>line[0]\<close> of the stripped line, which raises \<open>IndexError\<close> when the
  stripped line is empty. Python's \<open>or\<close> evaluates left to right and stops at the first
  true disjunct.
\<close>

definition numbered :: "string \<Rightarrow> bool" where
  "numbered line =
     list_ex (\<lambda>char. char_isdigit char \<and> contains ([char] @ ''.'') line) ''123456789''"

definition is_heading :: "string \<Rightarrow> error + bool" where
  "is_heading line0 =
     (if line0 = [] then Inr False
      else let line = strip line0 in
        if length (split line) \<le> 10 then
          (if isupper line \<or> istitle line \<or> numbered line \<or> endswith line '':'' then Inr True
           else if length line < 100 then
             (case line of [] \<Rightarrow> Inl IndexError | c # _ \<Rightarrow> Inr (char_isupper c))
           else Inr False)
        else Inr False)"

text \<open>
  The heading rule in the words of the specification, for a line as the structurer
  passes it (trimmed): at most 10 words, and fully uppercase, or title-case, or a digit
  immediately followed by a period somewhere, or a colon at the end, or fewer than 100
  characters and an uppercase first character.
\<close>

fun digit_then_period :: "string \<Rightarrow> bool" where
  "digit_then_period (c # d # cs) =
     ((char_isdecimal c \<and> d = CHR ''.'') \<or> digit_then_period (d # cs))"
| "digit_then_period cs = False"

definition ends_with_colon :: "string \<Rightarrow> bool" where
  "ends_with_colon line = (line \<noteq> [] \<and> last line = CHR '':'')"

definition first_is_upper :: "string \<Rightarrow> bool" where
  "first_is_upper line = (case line of [] \<Rightarrow> False | c # _ \<Rightarrow> char_isupper c)"

definition stated_heading_rule :: "string \<Rightarrow> bool" where
  "stated_heading_rule line =
     (length (split line) \<le> 10 \<and>
      (isupper line \<or> istitle line \<or> digit_then_period line \<or> ends_with_colon line \<or>
       (length line < 100 \<and> first_is_upper line)))"

text \<open>The same rule with the digits 1 to 9 in place of every digit.\<close>

definition char_nonzero_digit :: "char \<Rightarrow> bool" where
  "char_nonzero_digit c = (c \<in> set ''123456789'')"

fun nonzero_digit_then_period :: "string \<Rightarrow> bool" where
  "nonzero_digit_then_period (c # d # cs) =
     ((char_nonzero_digit c \<and> d = CHR ''.'') \<or> nonzero_digit_then_period (d # cs))"
| "nonzero_digit_then_period cs = False"

definition heading_rule :: "string \<Rightarrow> bool" where
  "heading_rule line =
     (length (split line) \<le> 10 \<and>
      (isupper line \<or> istitle line \<or> nonzero_digit_then_period line \<or> ends_with_colon line \<or>
       (length line < 100 \<and> first_is_upper line)))"

text \<open>\<open>TextExtractor._determine_heading_level\<close>.\<close>

definition determine_heading_level :: "string \<Rightarrow> nat" where
  "determine_heading_level heading0 =
     (let heading = strip heading0 in
      if numbered heading then
        length (filter (\<lambda>p. case p of [] \<Rightarrow> False | c # _ \<Rightarrow> char_isdigit c)
                       (split_on CHR ''.'' [] heading))
      else if isupper heading then 1
      else if istitle heading \<and> length heading < 50 then 2
      else 3)"

datatype text_block =
    Heading (block_text: string) (level: nat)
  | Paragraph (block_text: string)

record text_statistics =
  total_words :: nat
  total_paragraphs :: nat
  total_headings :: nat
  total_list_items :: nat
  total_sections :: nat
  hierarchy_depth :: nat

record text_result =
  content :: "text_block list"
  statistics :: text_statistics
  total_pages :: nat

text \<open>
  The state of the loop over the lines of a page: \<open>page_content\<close>, \<open>paragraph_buffer\<close>
  and the statistics of the document.
\<close>

type_synonym page_state = "text_block list \<times> string list \<times> text_statistics"

text \<open>
  The block \<open>if paragraph_buffer: ...\<close>, which the source writes out three times: at a
  blank line, before a heading and at the end of the page.
\<close>

fun flush :: "page_state \<Rightarrow> page_state" where
  "flush (page_content, paragraph_buffer, st) =
     (if paragraph_buffer \<noteq> [] then
        let paragraph_text = join '' '' paragraph_buffer in
        (page_content @ [Paragraph paragraph_text], [],
         st\<lparr>total_paragraphs := total_paragraphs st + 1,
            total_words := total_words st + length (split paragraph_text)\<rparr>)
      else (page_content, paragraph_buffer, st))"

fun lines_loop :: "string list \<Rightarrow> page_state \<Rightarrow> error + page_state" where
  "lines_loop [] s = Inr s"
| "lines_loop (l # ls) s =
     (let line = strip l in
      if line = [] then lines_loop ls (flush s)
      else case is_heading line of
        Inl e \<Rightarrow> Inl e
      | Inr True \<Rightarrow>
          (case flush s of (page_content, paragraph_buffer, st) \<Rightarrow>
             lines_loop ls
               (page_content @ [Heading line (determine_heading_level line)], paragraph_buffer,
                st\<lparr>total_headings := total_headings st + 1\<rparr>))
      | Inr False \<Rightarrow>
          (case s of (page_content, paragraph_buffer, st) \<Rightarrow>
             lines_loop ls (page_content, paragraph_buffer @ [line], st)))"

text \<open>
  The loop over the pages; a page is the string \<open>page.extract_text()\<close> returned, and a
  page without text is skipped.
\<close>

definition newline :: char where
  "newline = CHR 0x0A"

fun pages_loop ::
  "string list \<Rightarrow> text_block list \<times> text_statistics \<Rightarrow> error + text_block list \<times> text_statistics"
where
  "pages_loop [] s = Inr s"
| "pages_loop (text # pages) (doc_content, st) =
     (if text = [] then pages_loop pages (doc_content, st)
      else case lines_loop (split_on newline [] text) ([], [], st) of
        Inl e \<Rightarrow> Inl e
      | Inr s \<Rightarrow>
          (case flush s of (page_content, paragraph_buffer, st') \<Rightarrow>
             pages_loop pages (doc_content @ page_content, st')))"

definition initial_statistics :: text_statistics where
  "initial_statistics =
     \<lparr>total_words = 0, total_paragraphs = 0, total_headings = 0,
      total_list_items = 0, total_sections = 0, hierarchy_depth = 0\<rparr>"

definition text_async_extract :: "string list \<Rightarrow> error + text_result" where
  "text_async_extract pages =
     (case pages_loop pages ([], initial_statistics) of
        Inl e \<Rightarrow> Inl e
      | Inr (doc_content, st) \<Rightarrow>
          Inr \<lparr>content = doc_content, statistics = st, total_pages = length pages\<rparr>)"

text \<open>
  The blocks of a page that has the given lines: the page content after the loop over
  the lines and the flush at the end of the page.
\<close>

definition page_blocks :: "string list \<Rightarrow> text_block list" where
  "page_blocks lines =
     (case lines_loop lines ([], [], initial_statistics) of
        Inl e \<Rightarrow> []
      | Inr s \<Rightarrow> fst (flush s))"

text \<open>The blocks of the pages of a document, page after page.\<close>

definition document_blocks :: "string list \<Rightarrow> text_block list" where
  "document_blocks pages = concat (map (\<lambda>text. page_blocks (split_on newline [] text)) pages)"

text \<open>The paragraph block that a flush emits for a buffer.\<close>

definition paragraph_of :: "string list \<Rightarrow> text_block list" where
  "paragraph_of paragraph_buffer =
     (if paragraph_buffer = [] then [] else [Paragraph (join '' '' paragraph_buffer)])"

text \<open>
  A line of the body of a paragraph: not blank, and not a heading. The structurer
  looks at the trimmed line.
\<close>

definition body_line :: "string \<Rightarrow> bool" where
  "body_line l = (strip l \<noteq> [] \<and> is_heading (strip l) = Inr False)"


section \<open>Table Structurer: \<open>table_extractor.py\<close>\<close>

text \<open>
  A raw table of \<open>page.extract_tables()\<close> is a list of rows, a row a list of cells, a cell
  a string or \<open>None\<close>. The table \<open>None\<close> and the table without rows are both falsy and
  are both the empty list here.
\<close>

type_synonym raw_table = "string option list list"

text \<open>\<open>TableExtractor._format_table_for_llm\<close>.\<close>

definition clean_cell :: "string option \<Rightarrow> string" where
  "clean_cell cell = (case cell of None \<Rightarrow> [] | Some s \<Rightarrow> if s = [] then [] else strip s)"

definition cleaned_row :: "string option list \<Rightarrow> string list" where
  "cleaned_row row = map clean_cell row"

fun formatted_rows :: "raw_table \<Rightarrow> string list" where
  "formatted_rows [] = []"
| "formatted_rows (row # table) =
     (if list_ex (\<lambda>s. s \<noteq> []) (cleaned_row row)
      then join '' | '' (cleaned_row row) # formatted_rows table
      else formatted_rows table)"

definition format_table_for_llm :: "raw_table \<Rightarrow> string" where
  "format_table_for_llm table = join [newline] (formatted_rows table)"

text \<open>The prompt of \<open>_process_table_with_llm\<close>, an f-string around the table text.\<close>

definition prompt :: "string \<Rightarrow> string" where
  "prompt table_text =
     ''Please analyze this table data and convert it into a structured format.'' @ [newline] @
     ''            Focus on identifying headers and organizing the data appropriately.'' @
     [newline] @ [newline] @
     ''            Table Data:'' @ [newline] @
     ''            '' @ table_text @ [newline] @ [newline] @
     ''            Convert this into a structured format with clear headers and data rows.'' @
     [newline] @
     ''            Return only the JSON structure without any explanation.''"

text \<open>
  \<open>structured_data\<close> is the parsed reply (a JSON value of type \<open>'j\<close>), the fallback
  dictionary with \<open>raw_text\<close> and \<open>rows\<close>, or the dictionary with \<open>error\<close>.
\<close>

datatype 'j structured_data =
    Parsed 'j
  | Fallback (raw_text: string) (rows: "string list")
  | Failed (error_message: string)

record 'j llm_result =
  success :: bool
  structured_data :: "'j structured_data"

text \<open>
  \<open>TableExtractor._process_table_with_llm\<close>. \<open>ainvoke\<close> is the call of the model on a
  prompt: its reply, or the exception it raised. \<open>json_loads\<close> is \<open>json.loads\<close>: the
  parsed value, \<open>JSONDecodeError\<close>, or another exception, which the outer handler takes.
\<close>

definition process_table_with_llm ::
  "(string \<Rightarrow> error + string) \<Rightarrow> (string \<Rightarrow> error + 'j) \<Rightarrow> string \<Rightarrow> 'j llm_result"
where
  "process_table_with_llm ainvoke json_loads table_text =
     (case ainvoke (prompt table_text) of
        Inl e \<Rightarrow> \<lparr>success = False, structured_data = Failed (str_error e)\<rparr>
      | Inr response_content \<Rightarrow>
          (case json_loads response_content of
             Inr parsed \<Rightarrow> \<lparr>success = True, structured_data = Parsed parsed\<rparr>
           | Inl (JSONDecodeError m) \<Rightarrow>
               \<lparr>success = True,
                structured_data = Fallback table_text (split_on newline [] table_text)\<rparr>
           | Inl e \<Rightarrow> \<lparr>success = False, structured_data = Failed (str_error e)\<rparr>))"

text \<open>
  A Table Record; \<open>table_data\<close> is its key \<open>structured_data\<close>, and \<open>row_count\<close> and
  \<open>column_count\<close> are the keys of its \<open>metadata\<close>.
\<close>

record 'j table_record =
  page_number :: nat
  table_number :: nat
  table_data :: "'j structured_data"
  row_count :: nat
  column_count :: nat

text \<open>
  The body of the loop over the tables of a page. The model is called at most once for
  a table; \<open>llm page_num table_num\<close> is the call made for table \<open>table_num\<close> of page
  \<open>page_num\<close>, so that the replies of different calls are independent.
\<close>

definition table_step ::
  "(nat \<Rightarrow> nat \<Rightarrow> string \<Rightarrow> error + string) \<Rightarrow> (string \<Rightarrow> error + 'j) \<Rightarrow>
   nat \<Rightarrow> nat \<Rightarrow> raw_table \<Rightarrow> 'j table_record list \<Rightarrow> 'j table_record list"
where
  "table_step llm json_loads page_num table_num table tables =
     (if table = [] then tables
      else
        let table_text = format_table_for_llm table;
            structured_table =
              process_table_with_llm (llm page_num table_num) json_loads table_text
        in if success structured_table then
             tables @
               [\<lparr>page_number = page_num, table_number = table_num,
                 table_data = structured_data structured_table,
                 row_count = length table,
                 column_count = (case table of [] \<Rightarrow> 0 | row # _ \<Rightarrow> length row)\<rparr>]
           else tables)"

fun tables_loop ::
  "(nat \<Rightarrow> nat \<Rightarrow> string \<Rightarrow> error + string) \<Rightarrow> (string \<Rightarrow> error + 'j) \<Rightarrow>
   nat \<Rightarrow> nat \<Rightarrow> raw_table list \<Rightarrow> 'j table_record list \<Rightarrow> 'j table_record list"
where
  "tables_loop llm json_loads page_num table_num [] tables = tables"
| "tables_loop llm json_loads page_num table_num (table # page_tables) tables =
     tables_loop llm json_loads page_num (table_num + 1) page_tables
       (table_step llm json_loads page_num table_num table tables)"

text \<open>
  The loop over the pages. A page is what \<open>page.extract_tables()\<close> gave: the raw tables,
  or the exception it raised, which ends the extraction.
\<close>

fun table_pages_loop ::
  "(nat \<Rightarrow> nat \<Rightarrow> string \<Rightarrow> error + string) \<Rightarrow> (string \<Rightarrow> error + 'j) \<Rightarrow>
   nat \<Rightarrow> (error + raw_table list) list \<Rightarrow> 'j table_record list \<Rightarrow>
   error + 'j table_record list"
where
  "table_pages_loop llm json_loads page_num [] tables = Inr tables"
| "table_pages_loop llm json_loads page_num (page # pages) tables =
     (case page of
        Inl e \<Rightarrow> Inl e
      | Inr page_tables \<Rightarrow>
          table_pages_loop llm json_loads (page_num + 1) pages
            (tables_loop llm json_loads page_num 1 page_tables tables))"

text \<open>
  \<open>TableExtractor.async_extract\<close>. The document is what \<open>pdfplumber.open\<close> gave: its
  pages, or the exception it raised. Every exception yields the empty list.
\<close>

definition table_async_extract ::
  "(nat \<Rightarrow> nat \<Rightarrow> string \<Rightarrow> error + string) \<Rightarrow> (string \<Rightarrow> error + 'j) \<Rightarrow>
   error + (error + raw_table list) list \<Rightarrow> 'j table_record list"
where
  "table_async_extract llm json_loads pdf =
     (case pdf of
        Inl e \<Rightarrow> []
      | Inr pages \<Rightarrow>
          (case table_pages_loop llm json_loads 1 pages [] of
             Inl e \<Rightarrow> []
           | Inr tables \<Rightarrow> tables))"


section \<open>Visual Structurer: \<open>visual_extractor.py\<close>\<close>

text \<open>
  What the extractor takes from OpenCV, NumPy and Tesseract, for page images of type
  \<open>'img\<close> and float64 values of type \<open>'f\<close>:
  \<^item> \<open>hough_lines\<close>: \<open>cvtColor\<close>, \<open>Canny\<close> and \<open>HoughLinesP\<close> on a page: the segments
    \<open>(x1, y1, x2, y2)\<close>, \<open>None\<close>, or an exception;
  \<^item> \<open>angle\<close>: the float64 \<open>abs(np.arctan2(y2 - y1, x2 - x1) * 180 / np.pi)\<close> of a
    segment, a real number;
  \<^item> \<open>np_mean\<close>: \<open>np.mean\<close> of a list of integers, or an exception;
  \<^item> \<open>differ_lt_10\<close>: the float64 comparison \<open>abs(v_spacing - h_spacing) < 10\<close>;
  \<^item> \<open>image_to_string\<close>: \<open>pytesseract.image_to_string\<close> with a configuration.
\<close>

type_synonym segment = "int \<times> int \<times> int \<times> int"

record ('img, 'f) vision =
  hough_lines :: "'img \<Rightarrow> error + segment list option"
  angle :: "segment \<Rightarrow> real"
  np_mean :: "int list \<Rightarrow> error + 'f"
  differ_lt_10 :: "'f \<Rightarrow> 'f \<Rightarrow> bool"
  image_to_string :: "'img \<Rightarrow> string \<Rightarrow> error + string"

definition ocr_config_text :: string where
  "ocr_config_text = ''--oem 3 --psm 6''"

definition ocr_config_graph :: string where
  "ocr_config_graph =
     ''--oem 3 --psm 6 -c tessedit_char_whitelist='' @ [CHR 0x22] @
     ''0123456789.%-abcdefghijklmnopqrstuvwxyzABCDEFGHIJKLMNOPQRSTUVWXYZ'' @ [CHR 0x22]"

text \<open>\<open>VisualExtractor._extract_text_from_region\<close>.\<close>

definition extract_text_from_region :: "('img, 'f) vision \<Rightarrow> 'img \<Rightarrow> string \<Rightarrow> string" where
  "extract_text_from_region cv img config =
     (case image_to_string cv img config of Inl e \<Rightarrow> [] | Inr s \<Rightarrow> strip s)"

text \<open>
  \<open>VisualExtractor._determine_graph_type\<close>: the spacings are taken between the first
  x-coordinates of neighbouring vertical lines and the first y-coordinates of
  neighbouring horizontal lines, in the order of detection.
\<close>

definition v_spacings :: "segment list \<Rightarrow> int list" where
  "v_spacings vertical_lines =
     map (\<lambda>((x1, _), (x2, _)). \<bar>x1 - x2\<bar>) (zip (butlast vertical_lines) (tl vertical_lines))"

definition h_spacings :: "segment list \<Rightarrow> int list" where
  "h_spacings horizontal_lines =
     map (\<lambda>((_, y1, _), (_, y2, _)). \<bar>y1 - y2\<bar>)
       (zip (butlast horizontal_lines) (tl horizontal_lines))"

definition determine_graph_type ::
  "('img, 'f) vision \<Rightarrow> segment list \<Rightarrow> segment list \<Rightarrow> string"
where
  "determine_graph_type cv horizontal_lines vertical_lines =
     (case np_mean cv (v_spacings vertical_lines) of
        Inl e \<Rightarrow> ''unknown_graph_type''
      | Inr v_spacing \<Rightarrow>
          (case np_mean cv (h_spacings horizontal_lines) of
             Inl e \<Rightarrow> ''unknown_graph_type''
           | Inr h_spacing \<Rightarrow>
               if differ_lt_10 cv v_spacing h_spacing then ''grid_chart''
               else if length vertical_lines > length horizontal_lines then ''bar_chart''
               else ''line_graph''))"

text \<open>
  NumPy's float64 arithmetic, as far as \<open>_determine_graph_type\<close> uses it. A float64 is
  \<open>nan\<close> or a rational number; infinities and subnormal numbers do not arise from the
  means of spacings. \<open>round_float64\<close> rounds a rational number to the nearest number
  with a significand of 53 bits, ties to the even significand: with \<open>2^e \<le> |x| < 2^(e+1)\<close>
  the unit of the last place is \<open>2^(e-52)\<close>.
\<close>

datatype float64 = NaN | Finite rat

definition round_half_even :: "rat \<Rightarrow> int" where
  "round_half_even q =
     (let f = \<lfloor>q\<rfloor>; r = q - of_int f in
      if r < 1 / 2 then f
      else if r > 1 / 2 then f + 1
      else if even f then f else f + 1)"

text \<open>The binary exponent \<open>e\<close> of a positive rational \<open>x\<close>: \<open>2^e \<le> x < 2^(e+1)\<close>.\<close>

definition binary_exponent :: "rat \<Rightarrow> int" where
  "binary_exponent x =
     (if 1 \<le> x then bitlen \<lfloor>x\<rfloor> - 1 else - bitlen (\<lceil>1 / x\<rceil> - 1))"

definition round_float64 :: "rat \<Rightarrow> rat" where
  "round_float64 x =
     (if x = 0 then 0
      else let ulp = 2 powi (binary_exponent \<bar>x\<bar> - 52) in
        of_int (round_half_even (x / ulp)) * ulp)"

text \<open>
  \<open>np.mean\<close> of a list of int32 values: the sum is accumulated in float64, exactly for
  the spacings of pixel coordinates, and divided by the count, with one rounding. On
  the empty list NumPy warns and returns \<open>nan\<close>; it does not raise.
\<close>

definition float64_mean :: "int list \<Rightarrow> error + float64" where
  "float64_mean xs =
     (if xs = [] then Inr NaN
      else Inr (Finite (round_float64 (of_int (sum_list xs) / of_nat (length xs)))))"

text \<open>
  \<open>abs(v_spacing - h_spacing) < 10\<close>: the difference is rounded once, the absolute
  value and the comparison are exact, and every comparison with \<open>nan\<close> is false.
\<close>

definition float64_differ_lt_10 :: "float64 \<Rightarrow> float64 \<Rightarrow> bool" where
  "float64_differ_lt_10 v_spacing h_spacing =
     (case (v_spacing, h_spacing) of
        (Finite v, Finite h) \<Rightarrow> \<bar>round_float64 (v - h)\<bar> < 10
      | _ \<Rightarrow> False)"

text \<open>
  The sub-type rule in the words of the specification, over exact means: the mean
  spacing between neighbouring vertical lines and between neighbouring horizontal
  lines, \<open>grid_chart\<close> if the means differ by less than 10, else \<open>bar_chart\<close> if there are
  more vertical than horizontal lines, else \<open>line_graph\<close>.
\<close>

fun gaps :: "int list \<Rightarrow> int list" where
  "gaps (a # b # cs) = \<bar>a - b\<bar> # gaps (b # cs)"
| "gaps cs = []"

definition exact_mean :: "int list \<Rightarrow> rat" where
  "exact_mean xs = of_int (sum_list xs) / of_nat (length xs)"

definition x1_of :: "segment \<Rightarrow> int" where
  "x1_of l = fst l"

definition y1_of :: "segment \<Rightarrow> int" where
  "y1_of l = fst (snd l)"

definition stated_graph_type :: "segment list \<Rightarrow> segment list \<Rightarrow> string" where
  "stated_graph_type horizontal_lines vertical_lines =
     (if \<bar>exact_mean (gaps (map x1_of vertical_lines)) -
          exact_mean (gaps (map y1_of horizontal_lines))\<bar> < 10
      then ''grid_chart''
      else if length vertical_lines > length horizontal_lines then ''bar_chart''
      else ''line_graph'')"

text \<open>
  The same rule over float64: neighbours are consecutive lines in the order of
  detection, each mean is the rounded quotient of the sum of the spacings by their
  number, and the difference of the means is rounded before it is compared with 10.
  A list of fewer than two lines has no spacing and its mean is \<open>nan\<close>.
\<close>

definition rounded_mean :: "int list \<Rightarrow> float64" where
  "rounded_mean xs = (if xs = [] then NaN else Finite (round_float64 (exact_mean xs)))"

definition float64_graph_type :: "segment list \<Rightarrow> segment list \<Rightarrow> string" where
  "float64_graph_type horizontal_lines vertical_lines =
     (case (rounded_mean (gaps (map x1_of vertical_lines)),
            rounded_mean (gaps (map y1_of horizontal_lines))) of
        (Finite v, Finite h) \<Rightarrow>
          if \<bar>round_float64 (v - h)\<bar> < 10 then ''grid_chart''
          else if length vertical_lines > length horizontal_lines then ''bar_chart''
          else ''line_graph''
      | _ \<Rightarrow>
          if length vertical_lines > length horizontal_lines then ''bar_chart''
          else ''line_graph'')"

text \<open>
  \<open>VisualExtractor._detect_and_process_graph\<close>. The loop over the segments keeps the
  horizontal and the vertical ones, each in the order of detection.
\<close>

record graph_data =
  graph_type :: string
  axes_horizontal :: nat
  axes_vertical :: nat

fun classify_lines ::
  "('img, 'f) vision \<Rightarrow> segment list \<Rightarrow> segment list \<times> segment list \<Rightarrow>
   segment list \<times> segment list"
where
  "classify_lines cv [] (horizontal_lines, vertical_lines) = (horizontal_lines, vertical_lines)"
| "classify_lines cv (line # lines) (horizontal_lines, vertical_lines) =
     (if angle cv line < 10 \<or> angle cv line > 170
      then classify_lines cv lines (horizontal_lines @ [line], vertical_lines)
      else if 80 < angle cv line \<and> angle cv line < 100
      then classify_lines cv lines (horizontal_lines, vertical_lines @ [line])
      else classify_lines cv lines (horizontal_lines, vertical_lines))"

definition detect_and_process_graph :: "('img, 'f) vision \<Rightarrow> 'img \<Rightarrow> graph_data option" where
  "detect_and_process_graph cv img =
     (case hough_lines cv img of
        Inl e \<Rightarrow> None
      | Inr None \<Rightarrow> None
      | Inr (Some lines) \<Rightarrow>
          (case classify_lines cv lines ([], []) of (horizontal_lines, vertical_lines) \<Rightarrow>
             if length horizontal_lines \<ge> 2 \<and> length vertical_lines \<ge> 2 then
               Some \<lparr>graph_type = determine_graph_type cv horizontal_lines vertical_lines,
                     axes_horizontal = length horizontal_lines,
                     axes_vertical = length vertical_lines\<rparr>
             else None))"

record graph_element =
  g_page_number :: nat
  g_graph_data :: graph_data
  g_extracted_text :: string
  g_type :: string

record image_element =
  i_page_number :: nat
  i_extracted_text :: string
  i_word_count :: nat
  i_type :: string

record visual_statistics =
  total_images :: nat
  total_graphs :: nat
  total_text_extracted :: nat
  stat_error :: "string option"

record visual_elements =
  images :: "image_element list"
  graphs :: "graph_element list"
  visual_stats :: visual_statistics

text \<open>The body of the loop over the page images of \<open>VisualExtractor.async_extract\<close>.\<close>

definition visual_step ::
  "('img, 'f) vision \<Rightarrow> nat \<Rightarrow> 'img \<Rightarrow> visual_elements \<Rightarrow> visual_elements"
where
  "visual_step cv page_num img ve =
     (case detect_and_process_graph cv img of
        Some gd \<Rightarrow>
          let graph_text = extract_text_from_region cv img ocr_config_graph in
          ve\<lparr>graphs := graphs ve @
                 [\<lparr>g_page_number = page_num, g_graph_data = gd,
                   g_extracted_text = graph_text, g_type = graph_type gd\<rparr>],
             visual_stats := (visual_stats ve)
               \<lparr>total_graphs := total_graphs (visual_stats ve) + 1,
                total_text_extracted :=
                  total_text_extracted (visual_stats ve) + length (split graph_text)\<rparr>\<rparr>
      | None \<Rightarrow>
          let ocr_text = extract_text_from_region cv img ocr_config_text in
          if strip ocr_text \<noteq> [] then
            ve\<lparr>images := images ve @
                   [\<lparr>i_page_number = page_num, i_extracted_text = ocr_text,
                     i_word_count = length (split ocr_text), i_type = ''image''\<rparr>],
               visual_stats := (visual_stats ve)
                 \<lparr>total_images := total_images (visual_stats ve) + 1,
                  total_text_extracted :=
                    total_text_extracted (visual_stats ve) + length (split ocr_text)\<rparr>\<rparr>
          else ve)"

fun visual_loop ::
  "('img, 'f) vision \<Rightarrow> nat \<Rightarrow> 'img list \<Rightarrow> visual_elements \<Rightarrow> visual_elements"
where
  "visual_loop cv page_num [] ve = ve"
| "visual_loop cv page_num (img # imgs) ve =
     visual_loop cv (page_num + 1) imgs (visual_step cv page_num img ve)"

text \<open>
  \<open>VisualExtractor.async_extract\<close>. The document is what \<open>convert_from_path\<close> gave: the
  page images, or the exception it raised. The result starts, and after an exception
  ends, as the dictionary without elements, whose statistics carry the key \<open>error\<close> in
  the second case.
\<close>

definition no_visual_elements :: "string option \<Rightarrow> visual_elements" where
  "no_visual_elements err =
     \<lparr>images = [], graphs = [],
      visual_stats = \<lparr>total_images = 0, total_graphs = 0, total_text_extracted = 0,
                      stat_error = err\<rparr>\<rparr>"

definition visual_async_extract ::
  "('img, 'f) vision \<Rightarrow> error + 'img list \<Rightarrow> visual_elements"
where
  "visual_async_extract cv pdf =
     (case pdf of
        Inr imgs \<Rightarrow> visual_loop cv 1 imgs (no_visual_elements None)
      | Inl e \<Rightarrow> no_visual_elements (Some (str_error e)))"


text \<open>
  An instance of the capabilities, for the examples: the page image \<open>chart\<close> has two
  horizontal and two vertical lines and the labels \<open>10 20 30\<close>, the page image
  \<open>photo\<close> has no lines and the text \<open>Figure one\<close>, and any other page image has no lines
  and blank text.
\<close>

definition stub_vision :: "(string, int) vision" where
  "stub_vision =
     \<lparr>hough_lines = (\<lambda>img. if img = ''chart''
          then Inr (Some [(0, 0, 100, 0), (0, 0, 0, 100), (0, 50, 100, 50), (50, 0, 50, 100)])
          else Inr None),
      angle = (\<lambda>(x1, y1, x2, y2). if y1 = y2 then 0 else 90),
      np_mean = (\<lambda>xs. if xs = [] then Inl (Exception ''nan'')
          else Inr (sum_list xs div int (length xs))),
      differ_lt_10 = (\<lambda>v h. \<bar>v - h\<bar> < 10),
      image_to_string = (\<lambda>img config. if img = ''chart'' then Inr ''10 20 30''
          else if img = ''photo'' then Inr '' Figure one '' else Inr ''  '')\<rparr>"

text \<open>
  The same instance with NumPy's float64 arithmetic for the means, and one whose
  \<open>np.mean\<close> raises.
\<close>

definition numpy_vision :: "(string, float64) vision" where
  "numpy_vision =
     \<lparr>hough_lines = hough_lines stub_vision,
      angle = angle stub_vision,
      np_mean = float64_mean,
      differ_lt_10 = float64_differ_lt_10,
      image_to_string = image_to_string stub_vision\<rparr>"

definition raising_vision :: "(string, float64) vision" where
  "raising_vision = numpy_vision\<lparr>np_mean := (\<lambda>xs. Inl (Exception ''MemoryError''))\<rparr>"

section \<open>Conversational Retrieval Engine: \<open>app.py\<close> and \<open>server.py\<close>\<close>

text \<open>
  \<open>re.search(r"page (\d+)", source_text)\<close>: the first position where \<open>page\<close>, a space and
  a decimal digit follow, and the longest run of decimal digits there. On this range
  of characters \<open>\d\<close> is 0 to 9.
\<close>

fun search_page :: "string \<Rightarrow> string option" where
  "search_page [] = None"
| "search_page (c # cs) =
     (if startswith (c # cs) ''page '' \<and> takeWhile char_isdecimal (drop 5 (c # cs)) \<noteq> []
      then Some (takeWhile char_isdecimal (drop 5 (c # cs)))
      else search_page cs)"

text \<open>
  \<open>int(s)\<close> on a string of decimal digits. A chunk has at most \<open>CHUNK_SIZE = 1500\<close>
  characters, so the conversion never meets CPython's limit on the number of digits.
\<close>

definition int_of_digits :: "string \<Rightarrow> nat" where
  "int_of_digits s = foldl (\<lambda>n d. 10 * n + (code d - 48)) 0 s"

record source =
  source_type :: string
  page :: "nat option"
  source_content :: string

text \<open>The body of the loop over \<open>source_documents\<close> in \<open>PDFProcessor.ask_question\<close>.\<close>

definition source_of :: "string \<Rightarrow> source" where
  "source_of source_text =
     \<lparr>source_type =
        (if startswith source_text ''[Table'' then ''table''
         else if startswith source_text ''[Graph'' then ''graph''
         else if startswith source_text ''[Image'' then ''image''
         else ''text''),
      page = (case search_page source_text of None \<Rightarrow> None | Some g \<Rightarrow> Some (int_of_digits g)),
      source_content = source_text\<rparr>"

record chain_result =
  answer :: string
  source_documents :: "string list"

record qa_response =
  response_answer :: string
  sources :: "source list"

text \<open>
  \<open>PDFProcessor\<close>: \<open>chain\<close> is \<open>None\<close> until a document has been processed, then the
  retrieval chain, a call on a question and a history that answers or raises.
\<close>

type_synonym history = "(string \<times> string) list"

record pdf_processor =
  chain :: "(string \<Rightarrow> history \<Rightarrow> error + chain_result) option"

definition new_processor :: pdf_processor where
  "new_processor = \<lparr>chain = None\<rparr>"

definition ask_question :: "pdf_processor \<Rightarrow> string \<Rightarrow> history \<Rightarrow> error + qa_response" where
  "ask_question self question chat_history =
     (case chain self of
        None \<Rightarrow> Inl (ValueError ''No PDF has been processed yet. Please upload a PDF first.'')
      | Some ainvoke \<Rightarrow>
          (case ainvoke question chat_history of
             Inl e \<Rightarrow> Inl e
           | Inr result \<Rightarrow>
               Inr \<lparr>response_answer = answer result,
                    sources = map source_of (source_documents result)\<rparr>))"

text \<open>
  \<open>chat_endpoint\<close> of \<open>server.py\<close>, on the global processor and chat history. An
  \<open>HTTPException\<close> is its status code and its detail.
\<close>

record server_state =
  processor :: pdf_processor
  chat_history :: history

datatype http_exception = HTTPException (status_code: nat) (detail: string)

definition chat_endpoint ::
  "server_state \<Rightarrow> string \<Rightarrow> (http_exception + qa_response) \<times> server_state"
where
  "chat_endpoint st payload_question =
     (let question = strip payload_question in
      if question = [] then (Inl (HTTPException 400 ''Question cannot be empty.''), st)
      else case ask_question (processor st) question (chat_history st) of
        Inr response \<Rightarrow>
          (Inr response,
           st\<lparr>chat_history := chat_history st @ [(question, response_answer response)]\<rparr>)
      | Inl (ValueError m) \<Rightarrow> (Inl (HTTPException 400 m), st)
      | Inl (JSONDecodeError m) \<Rightarrow> (Inl (HTTPException 400 m), st)
      | Inl e \<Rightarrow> (Inl (HTTPException 500 (str_error e)), st))"


section \<open>Properties of the heading rule\<close>

text \<open>
  Claim C2. \<open>_is_heading\<close> returns \<open>False\<close> on the empty string, but it does not return on
  every string: on a line of one space the guard for the empty line does not apply, the
  strip leaves the empty string, no earlier disjunct holds, and \<open>line[0]\<close> raises
  \<open>IndexError\<close>.
\<close>

theorem is_heading_whitespace_raises:
  "is_heading '' '' = Inl IndexError \<and> is_heading [] = Inr False"
  by code_simp

lemma digits_isdigit: "\<forall>a \<in> set ''123456789''. char_isdigit a"
  by code_simp

lemma numbered_alt: "numbered line = (\<exists>a \<in> set ''123456789''. contains [a, CHR ''.''] line)"
  unfolding numbered_def list_ex_iff append.simps using digits_isdigit by blast

lemma contains_pair:
  "contains [a, b] (c # d # cs) = ((c = a \<and> d = b) \<or> contains [a, b] (d # cs))"
  by simp

lemma numbered_iff: "numbered line = nonzero_digit_then_period line"
proof -
  define S where "S = set ''123456789''"
  have "nonzero_digit_then_period line = (\<exists>a \<in> S. contains [a, CHR ''.''] line)"
  proof (induction line rule: nonzero_digit_then_period.induct)
    case (1 c d cs)
    have "(\<exists>a \<in> S. contains [a, CHR ''.''] (c # d # cs)) =
          ((c \<in> S \<and> d = CHR ''.'') \<or> (\<exists>a \<in> S. contains [a, CHR ''.''] (d # cs)))"
      unfolding contains_pair by blast
    then show ?case
      using 1 by (simp only: nonzero_digit_then_period.simps char_nonzero_digit_def S_def)
  qed simp_all
  then show ?thesis by (simp only: numbered_alt S_def)
qed

lemma endswith_colon: "endswith line '':'' = ends_with_colon line"
  by (cases line rule: rev_cases) (auto simp: endswith_def ends_with_colon_def)

lemma strip_Nil: "strip [] = []"
  by (simp add: strip_def)

text \<open>
  Claim C4, as stated, fails: the line \<open>a0.\<close> has one word and a digit immediately
  followed by a period, and \<open>_is_heading\<close> returns \<open>False\<close> on it, because the source looks
  for the digits of \<open>"123456789"\<close> only.
\<close>

theorem is_heading_zero_period:
  "''a0.'' \<noteq> [] \<and> stated_heading_rule ''a0.'' \<and> is_heading ''a0.'' = Inr False"
  by code_simp

text \<open>
  Claim C4, amended. For every line that is not empty after trimming, \<open>_is_heading\<close>
  returns, and it returns \<open>True\<close> if and only if the trimmed line has at most 10 words and
  is fully uppercase, or is title-case, or contains one of the digits 1 to 9 immediately
  followed by a period, or ends with a colon, or has fewer than 100 characters and an
  uppercase first character.
\<close>

theorem is_heading_rule:
  assumes "strip line \<noteq> []"
  shows "is_heading line = Inr (heading_rule (strip line))"
proof -
  from assms have "line \<noteq> []"
    by (auto simp: strip_Nil)
  moreover obtain c cs where "strip line = c # cs"
    using assms by (cases "strip line") auto
  ultimately show ?thesis
    by (auto simp: is_heading_def heading_rule_def Let_def numbered_iff endswith_colon
        first_is_upper_def)
qed

theorem is_heading_rule_witness:
  "strip ''  2.1 Results'' \<noteq> [] \<and> is_heading ''  2.1 Results'' = Inr True \<and>
   heading_rule ''2.1 Results''"
proof -
  have s: "strip ''  2.1 Results'' = ''2.1 Results''"
    by code_simp
  have h: "heading_rule ''2.1 Results''"
    by code_simp
  show ?thesis
    using is_heading_rule [of "''  2.1 Results''"] by (simp add: s h)
qed


section \<open>Properties of the Table Structurer's fallback\<close>

text \<open>
  Claim C6. When the model answers a table text and \<open>json.loads\<close> raises
  \<open>JSONDecodeError\<close> on the reply, \<open>_process_table_with_llm\<close> reports success, and the
  structured data are the fallback: \<open>raw_text\<close> is the table text and \<open>rows\<close> is the
  table text split at newlines. A table with that text is then not dropped: the loop
  body of \<open>async_extract\<close> appends its record, carrying the fallback.
\<close>

theorem fallback_on_unparseable_reply:
  assumes "ainvoke (prompt table_text) = Inr reply"
    and "json_loads reply = Inl (JSONDecodeError m)"
  shows "process_table_with_llm ainvoke json_loads table_text =
           \<lparr>success = True,
            structured_data = Fallback table_text (split_on newline [] table_text)\<rparr>
         \<and> (table \<noteq> [] \<and> format_table_for_llm table = table_text \<longrightarrow>
               table_step (\<lambda>_ _. ainvoke) json_loads p t table tables =
                 tables @ [\<lparr>page_number = p, table_number = t,
                   table_data = Fallback table_text (split_on newline [] table_text),
                   row_count = length table,
                   column_count = (case table of [] \<Rightarrow> 0 | row # _ \<Rightarrow> length row)\<rparr>])"
  using assms by (simp add: process_table_with_llm_def table_step_def Let_def)

theorem fallback_on_unparseable_reply_witness:
  "process_table_with_llm (\<lambda>_. Inr ''Here is the table'')
       (\<lambda>_. Inl (JSONDecodeError ''Expecting value'') :: error + unit) ''a | b'' =
     \<lparr>success = True, structured_data = Fallback ''a | b'' [''a | b'']\<rparr>
   \<and> table_step (\<lambda>_ _ _. Inr ''Here is the table'')
       (\<lambda>_. Inl (JSONDecodeError ''Expecting value'') :: error + unit)
       2 1 [[Some ''a'', Some '' b '']] [] =
     [\<lparr>page_number = 2, table_number = 1, table_data = Fallback ''a | b'' [''a | b''],
       row_count = 1, column_count = 2\<rparr>]"
proof -
  have fmt: "format_table_for_llm [[Some ''a'', Some '' b '']] = ''a | b''"
    by code_simp
  show ?thesis
    using fallback_on_unparseable_reply
      [of "\<lambda>_. Inr ''Here is the table''" "''a | b''" "''Here is the table''"
          "\<lambda>_. Inl (JSONDecodeError ''Expecting value'') :: error + unit" "''Expecting value''"
          "[[Some ''a'', Some '' b '']]" 2 1 "[]"]
    by (simp add: fmt newline_def)
qed


section \<open>Properties of the readiness check\<close>

text \<open>
  Claim C9. While no document has been processed the chain is unset, and for every
  question \<open>ask_question\<close> raises the \<open>ValueError\<close> that says so; it returns no answer and
  raises nothing else. \<open>chat_endpoint\<close> turns it into an \<open>HTTPException\<close> of status 400 and
  leaves the processor and the chat history as they were.
\<close>

theorem ask_question_not_ready:
  assumes "chain self = None"
  shows "ask_question self question h =
           Inl (ValueError ''No PDF has been processed yet. Please upload a PDF first.'')
         \<and> (\<exists>d. chat_endpoint \<lparr>processor = self, chat_history = h\<rparr> question =
                  (Inl (HTTPException 400 d), \<lparr>processor = self, chat_history = h\<rparr>))"
  using assms by (simp add: ask_question_def chat_endpoint_def Let_def)

theorem ask_question_not_ready_witness:
  "chain new_processor = None \<and>
   ask_question new_processor ''What is on page 2?'' [] =
     Inl (ValueError ''No PDF has been processed yet. Please upload a PDF first.'') \<and>
   (\<exists>d. chat_endpoint \<lparr>processor = new_processor, chat_history = []\<rparr> ''What is on page 2?'' =
          (Inl (HTTPException 400 d), \<lparr>processor = new_processor, chat_history = []\<rparr>))"
  using ask_question_not_ready [of new_processor "''What is on page 2?''" "[]"]
  by (simp add: new_processor_def)


section \<open>Properties of the source citations\<close>

lemma startswith_iff: "startswith s p = (\<exists>r. s = p @ r)"
  by (induction s p rule: startswith.induct) auto

lemma search_page_None:
  "(search_page s = None) = (\<nexists>pre d post. s = pre @ ''page '' @ d # post \<and> char_isdecimal d)"
proof (induction s)
  case Nil
  show ?case by simp
next
  case (Cons c cs)
  let ?here = "startswith (c # cs) ''page '' \<and> takeWhile char_isdecimal (drop 5 (c # cs)) \<noteq> []"
  have here: "?here = (\<exists>d post. c # cs = ''page '' @ d # post \<and> char_isdecimal d)"
  proof
    assume h: ?here
    then obtain r where r: "c # cs = ''page '' @ r" by (auto simp: startswith_iff)
    then have "drop 5 (c # cs) = r" by simp
    with h have "takeWhile char_isdecimal r \<noteq> []" by simp
    then obtain d post where "r = d # post" "char_isdecimal d"
      by (cases r) (auto split: if_splits)
    with r show "\<exists>d post. c # cs = ''page '' @ d # post \<and> char_isdecimal d" by blast
  next
    assume "\<exists>d post. c # cs = ''page '' @ d # post \<and> char_isdecimal d"
    then obtain d post where e: "c # cs = ''page '' @ d # post" and d: "char_isdecimal d" by blast
    have "startswith (c # cs) ''page ''" unfolding startswith_iff using e by blast
    moreover have "drop 5 (c # cs) = d # post" using e by simp
    ultimately show ?here using d by simp
  qed
  have split: "(\<exists>pre d post. c # cs = pre @ ''page '' @ d # post \<and> char_isdecimal d) =
        ((\<exists>d post. c # cs = ''page '' @ d # post \<and> char_isdecimal d) \<or>
         (\<exists>pre d post. cs = pre @ ''page '' @ d # post \<and> char_isdecimal d))"
    (is "?L = (?A \<or> ?B)")
  proof
    assume ?L
    then obtain pre d post where e: "c # cs = pre @ ''page '' @ d # post" and d: "char_isdecimal d"
      by blast
    show "?A \<or> ?B"
    proof (cases pre)
      case Nil
      with e d show ?thesis by auto
    next
      case (Cons a pre')
      with e have "cs = pre' @ ''page '' @ d # post" by simp
      with d show ?thesis by blast
    qed
  next
    assume "?A \<or> ?B"
    then show ?L
    proof
      assume ?A
      then obtain d post where "c # cs = [] @ ''page '' @ d # post" "char_isdecimal d" by auto
      then show ?L by blast
    next
      assume ?B
      then obtain pre d post where "cs = pre @ ''page '' @ d # post" "char_isdecimal d" by blast
      then have "c # cs = (c # pre) @ ''page '' @ d # post" by simp
      with \<open>char_isdecimal d\<close> show ?L by blast
    qed
  qed
  show ?case
  proof (cases ?here)
    case True
    then have "search_page (c # cs) \<noteq> None" by simp
    moreover from True here split have "(\<exists>pre d post. c # cs = pre @ ''page '' @ d # post \<and> char_isdecimal d)" by blast
    ultimately show ?thesis by blast
  next
    case False
    then have "search_page (c # cs) = search_page cs" by (simp only: search_page.simps if_False)
    moreover from False here have "\<not> (\<exists>d post. c # cs = ''page '' @ d # post \<and> char_isdecimal d)" by blast
    ultimately show ?thesis using split Cons.IH by presburger
  qed
qed

text \<open>
  Claim C3, as stated, fails in its last part: the chunk \<open>see page 5\<close> has no bracketed
  prefix, and its citation has the page 5, not null, because the page is searched in the
  whole text of the chunk.
\<close>

theorem source_page_without_prefix:
  "\<not> startswith ''see page 5'' ''['' \<and>
   source_of ''see page 5'' =
     \<lparr>source_type = ''text'', page = Some 5, source_content = ''see page 5''\<rparr>"
  by code_simp

text \<open>
  Claim C3, amended. A chunk that begins with \<open>[Table on page 7]\<close> yields the type
  \<open>table\<close> and the page 7; a chunk that begins with \<open>[Graph on page 3]\<close> yields the type
  \<open>graph\<close> and the page 3; a chunk with no bracketed prefix yields the type \<open>text\<close>; and
  the page of a chunk is null exactly when its text has no occurrence of \<open>page\<close>, a space
  and a decimal digit.
\<close>

theorem source_citation:
  "source_type (source_of (''[Table on page 7]'' @ rest)) = ''table'' \<and>
   page (source_of (''[Table on page 7]'' @ rest)) = Some 7 \<and>
   source_type (source_of (''[Graph on page 3]'' @ rest)) = ''graph'' \<and>
   page (source_of (''[Graph on page 3]'' @ rest)) = Some 3 \<and>
   (\<not> startswith chunk ''['' \<longrightarrow> source_type (source_of chunk) = ''text'') \<and>
   ((page (source_of chunk) = None) =
    (\<nexists>pre d post. chunk = pre @ ''page '' @ d # post \<and> char_isdecimal d))"
proof -
  have tbl: "source_of (''[Table on page 7]'' @ rest) =
      \<lparr>source_type = ''table'', page = Some 7,
       source_content = ''[Table on page 7]'' @ rest\<rparr>"
    by (simp add: source_of_def char_isdecimal_def code_def int_of_digits_def)
  have gr: "source_of (''[Graph on page 3]'' @ rest) =
      \<lparr>source_type = ''graph'', page = Some 3,
       source_content = ''[Graph on page 3]'' @ rest\<rparr>"
    by (simp add: source_of_def char_isdecimal_def code_def int_of_digits_def)
  have plain: "\<not> startswith chunk ''['' \<longrightarrow> source_type (source_of chunk) = ''text''"
    by (cases chunk) (auto simp: source_of_def)
  have "(page (source_of chunk) = None) = (search_page chunk = None)"
    by (simp add: source_of_def split: option.splits)
  then have null: "(page (source_of chunk) = None) =
      (\<nexists>pre d post. chunk = pre @ ''page '' @ d # post \<and> char_isdecimal d)"
    by (simp only: search_page_None)
  show ?thesis
    using plain null by (simp only: tbl gr source.simps)
qed

theorem source_citation_witness:
  "source_type (source_of ''[Table on page 7] {}'') = ''table'' \<and>
   page (source_of ''[Table on page 7] {}'') = Some 7 \<and>
   source_type (source_of ''[Graph on page 3] {}'') = ''graph'' \<and>
   page (source_of ''[Graph on page 3] {}'') = Some 3 \<and>
   \<not> startswith ''Revenue grew'' ''['' \<and>
   source_type (source_of ''Revenue grew'') = ''text''"
  using source_citation [of "'' {}''" "''Revenue grew''"] by simp


section \<open>Properties of the Table Structurer's records\<close>

text \<open>The records of one table among those of a loop: those of its own step.\<close>

lemma filter_table_step:
  "filter (\<lambda>r. page_number r = p \<and> table_number r = k) (table_step llm j q i tb acc) =
   filter (\<lambda>r. page_number r = p \<and> table_number r = k) acc @
   (if q = p \<and> i = k then table_step llm j p k tb [] else [])"
  by (simp add: table_step_def Let_def)

lemma filter_tables_loop:
  "filter (\<lambda>r. page_number r = p \<and> table_number r = k) (tables_loop llm j q n tbs acc) =
   filter (\<lambda>r. page_number r = p \<and> table_number r = k) acc @
   (if q = p \<and> n \<le> k \<and> k < n + length tbs then table_step llm j p k (tbs ! (k - n)) [] else [])"
proof (induction tbs arbitrary: n acc)
  case Nil
  show ?case by auto
next
  case (Cons tb tbs)
  show ?case
  proof (cases "q = p \<and> n = k")
    case True
    then show ?thesis
      using Cons.IH[of "Suc n" "table_step llm j q n tb acc"] by (simp add: filter_table_step)
  next
    case False
    have "k - n = Suc (k - Suc n)" if "Suc n \<le> k" using that by simp
    then show ?thesis
      using False Cons.IH[of "Suc n" "table_step llm j q n tb acc"]
      by (auto simp: filter_table_step)
  qed
qed

lemma filter_table_pages_loop:
  "\<exists>r. table_pages_loop llm j n (map Inr pgs) acc = Inr r \<and>
     filter (\<lambda>r. page_number r = p \<and> table_number r = k) r =
     filter (\<lambda>r. page_number r = p \<and> table_number r = k) acc @
     (if n \<le> p \<and> p < n + length pgs \<and> 1 \<le> k \<and> k < 1 + length (pgs ! (p - n))
      then table_step llm j p k (pgs ! (p - n) ! (k - 1)) [] else [])"
proof (induction pgs arbitrary: n acc)
  case Nil
  show ?case by auto
next
  case (Cons pg pgs)
  obtain r where r: "table_pages_loop llm j (n + 1) (map Inr pgs) (tables_loop llm j n 1 pg acc) = Inr r"
    and f: "filter (\<lambda>r. page_number r = p \<and> table_number r = k) r =
     filter (\<lambda>r. page_number r = p \<and> table_number r = k) (tables_loop llm j n 1 pg acc) @
     (if n + 1 \<le> p \<and> p < n + 1 + length pgs \<and> 1 \<le> k \<and> k < 1 + length (pgs ! (p - (n + 1)))
      then table_step llm j p k (pgs ! (p - (n + 1)) ! (k - 1)) [] else [])"
    using Cons.IH[of "n + 1" "tables_loop llm j n 1 pg acc"] by blast
  have loop: "table_pages_loop llm j n (map Inr (pg # pgs)) acc = Inr r"
    using r by simp
  show ?case
  proof (cases "n = p")
    case True
    then show ?thesis unfolding loop using f by (simp add: filter_tables_loop)
  next
    case False
    have "p - n = Suc (p - Suc n)" if "Suc n \<le> p" using that by simp
    then show ?thesis unfolding loop using f False by (auto simp: filter_tables_loop)
  qed
qed

lemma success_iff:
  "success (process_table_with_llm ainvoke json_loads table_text) =
   (\<exists>reply. ainvoke (prompt table_text) = Inr reply \<and>
      ((\<exists>v. json_loads reply = Inr v) \<or> (\<exists>m. json_loads reply = Inl (JSONDecodeError m))))"
  by (auto simp: process_table_with_llm_def split: sum.splits error.splits)

lemma page_error_ends_loop:
  "Inl e \<in> set pages \<Longrightarrow> \<exists>e'. table_pages_loop llm j n pages acc = Inl e'"
  by (induction pages arbitrary: n acc) (auto split: sum.splits)

lemma extraction_error_no_tables:
  "table_async_extract llm j (Inl e) = []"
  "Inl e \<in> set pages \<Longrightarrow> table_async_extract llm j (Inr pages) = []"
  using page_error_ends_loop[of e pages llm j 1 "[]"]
  by (auto simp: table_async_extract_def)

text \<open>
  Claim C1, as stated, fails in its second part: for a document whose only table is a
  3x2 grid of empty strings, with a model that replies, \<open>async_extract\<close> returns one
  record, not the empty list. The grid is a non-empty list, so \<open>if not table\<close> does not
  skip it; its text is empty and is sent to the model.
\<close>

theorem blank_grid_emits_record:
  "table_async_extract (\<lambda>_ _ _. Inr ''{}'') (\<lambda>_. Inr ())
     (Inr [Inr [[[Some [], Some []], [Some [], Some []], [Some [], Some []]]]]) =
   [\<lparr>page_number = 1, table_number = 1, table_data = Parsed (),
     row_count = 3, column_count = 2\<rparr>]"
  by code_simp

text \<open>
  Claim C1, amended. When every page yields its raw tables, the number of records that
  \<open>async_extract\<close> emits for table \<open>t + 1\<close> of page \<open>p + 1\<close> is one if the raw table has at
  least one row and the processing of its text by the model succeeds (the model
  replies, and the reply parses or fails with \<open>JSONDecodeError\<close>), and zero otherwise;
  whether the cells are blank plays no part.
\<close>

theorem one_record_per_table:
  assumes "p < length pgs" and "t < length (pgs ! p)"
  shows "length (filter (\<lambda>r. page_number r = p + 1 \<and> table_number r = t + 1)
           (table_async_extract llm json_loads (Inr (map Inr pgs)))) =
         (if pgs ! p ! t \<noteq> [] \<and>
             success (process_table_with_llm (llm (p + 1) (t + 1)) json_loads
                        (format_table_for_llm (pgs ! p ! t)))
          then 1 else 0)"
proof -
  obtain r where r: "table_pages_loop llm json_loads 1 (map Inr pgs) [] = Inr r"
    and f: "filter (\<lambda>r. page_number r = p + 1 \<and> table_number r = t + 1) r =
      table_step llm json_loads (p + 1) (t + 1) (pgs ! p ! t) []"
    using filter_table_pages_loop[of llm json_loads 1 pgs "[]" "p + 1" "t + 1"] assms by auto
  have "table_async_extract llm json_loads (Inr (map Inr pgs)) = r"
    using r by (simp add: table_async_extract_def)
  then show ?thesis using f by (simp add: table_step_def Let_def)
qed

theorem one_record_per_table_witness:
  "(0::nat) < length [[[[Some ''Name'', None], [Some [], Some []]]], []] \<and>
   (0::nat) < length ([[[[Some ''Name'', None], [Some [], Some []]]], []] ! 0) \<and>
   length (filter (\<lambda>r. page_number r = 1 \<and> table_number r = 1)
     (table_async_extract (\<lambda>_ _ _. Inr ''{}'') (\<lambda>_. Inr ())
        (Inr (map Inr [[[[Some ''Name'', None], [Some [], Some []]]], []])))) = 1"
  using one_record_per_table
    [of 0 "[[[[Some ''Name'', None], [Some [], Some []]]], []]" 0
        "\<lambda>_ _ _. Inr ''{}''" "\<lambda>_. Inr ()"]
  by (simp add: process_table_with_llm_def)


section \<open>Properties of the Visual Structurer\<close>

text \<open>The run of the extractor on the three pages \<open>chart\<close>, \<open>photo\<close> and \<open>blank\<close>.\<close>

lemma stub_chart: "detect_and_process_graph stub_vision ''chart'' =
    Some \<lparr>graph_type = ''grid_chart'', axes_horizontal = 2, axes_vertical = 2\<rparr>"
  by (simp add: detect_and_process_graph_def stub_vision_def determine_graph_type_def
     v_spacings_def h_spacings_def)

lemma stub_other:
  "detect_and_process_graph stub_vision ''photo'' = None"
  "detect_and_process_graph stub_vision ''blank'' = None"
  by (simp_all add: detect_and_process_graph_def stub_vision_def)

lemma stub_text:
  "extract_text_from_region stub_vision ''chart'' c = ''10 20 30''"
  "extract_text_from_region stub_vision ''photo'' c = ''Figure one''"
  "extract_text_from_region stub_vision ''blank'' c = []"
  unfolding extract_text_from_region_def stub_vision_def by code_simp+

lemma stub_words:
  "length (split ''10 20 30'') = 3" "length (split ''Figure one'') = 2"
  "strip ''Figure one'' \<noteq> []" "strip [] = []"
  by code_simp+

lemma stub_run: "visual_async_extract stub_vision (Inr [''chart'', ''photo'', ''blank'']) =
  \<lparr>images = [\<lparr>i_page_number = 2, i_extracted_text = ''Figure one'', i_word_count = 2, i_type = ''image''\<rparr>],
   graphs = [\<lparr>g_page_number = 1, g_graph_data = \<lparr>graph_type = ''grid_chart'', axes_horizontal = 2, axes_vertical = 2\<rparr>,
      g_extracted_text = ''10 20 30'', g_type = ''grid_chart''\<rparr>],
   visual_stats = \<lparr>total_images = 1, total_graphs = 1, total_text_extracted = 5, stat_error = None\<rparr>\<rparr>"
  by (simp add: visual_async_extract_def no_visual_elements_def visual_step_def Let_def
       stub_chart stub_other stub_text stub_words)

text \<open>The counters and the lists agree before and after every page.\<close>

lemma visual_step_counts:
  assumes "total_graphs (visual_stats ve) = length (graphs ve)"
    and "total_images (visual_stats ve) = length (images ve)"
    and "total_text_extracted (visual_stats ve) =
           (\<Sum>g\<leftarrow>graphs ve. length (split (g_extracted_text g))) +
           (\<Sum>m\<leftarrow>images ve. length (split (i_extracted_text m)))"
  shows "total_graphs (visual_stats (visual_step cv n img ve)) = length (graphs (visual_step cv n img ve))
    \<and> total_images (visual_stats (visual_step cv n img ve)) = length (images (visual_step cv n img ve))
    \<and> total_text_extracted (visual_stats (visual_step cv n img ve)) =
           (\<Sum>g\<leftarrow>graphs (visual_step cv n img ve). length (split (g_extracted_text g))) +
           (\<Sum>m\<leftarrow>images (visual_step cv n img ve). length (split (i_extracted_text m)))"
  using assms by (simp add: visual_step_def Let_def split: option.splits)

lemma visual_loop_counts:
  assumes "total_graphs (visual_stats ve) = length (graphs ve)"
    and "total_images (visual_stats ve) = length (images ve)"
    and "total_text_extracted (visual_stats ve) =
           (\<Sum>g\<leftarrow>graphs ve. length (split (g_extracted_text g))) +
           (\<Sum>m\<leftarrow>images ve. length (split (i_extracted_text m)))"
  shows "total_graphs (visual_stats (visual_loop cv n imgs ve)) = length (graphs (visual_loop cv n imgs ve))
    \<and> total_images (visual_stats (visual_loop cv n imgs ve)) = length (images (visual_loop cv n imgs ve))
    \<and> total_text_extracted (visual_stats (visual_loop cv n imgs ve)) =
           (\<Sum>g\<leftarrow>graphs (visual_loop cv n imgs ve). length (split (g_extracted_text g))) +
           (\<Sum>m\<leftarrow>images (visual_loop cv n imgs ve). length (split (i_extracted_text m)))"
  using assms
proof (induction imgs arbitrary: n ve)
  case Nil
  then show ?case by simp
next
  case (Cons img imgs)
  have step: "total_graphs (visual_stats (visual_step cv n img ve)) = length (graphs (visual_step cv n img ve))
    \<and> total_images (visual_stats (visual_step cv n img ve)) = length (images (visual_step cv n img ve))
    \<and> total_text_extracted (visual_stats (visual_step cv n img ve)) =
           (\<Sum>g\<leftarrow>graphs (visual_step cv n img ve). length (split (g_extracted_text g))) +
           (\<Sum>m\<leftarrow>images (visual_step cv n img ve). length (split (i_extracted_text m)))"
    by (rule visual_step_counts) (use Cons.prems in auto)
  show ?case
    using Cons.IH[of "visual_step cv n img ve" "n + 1"] step by simp
qed

text \<open>
  Claim C10. In every result of \<open>VisualExtractor.async_extract\<close>, \<open>total_graphs\<close> is the
  length of \<open>graphs\<close>, \<open>total_images\<close> is the length of \<open>images\<close>, and
  \<open>total_text_extracted\<close> is the sum, over the recorded graphs and images, of the number
  of whitespace-separated words of their \<open>extracted_text\<close>.
\<close>

theorem visual_statistics_consistent:
  "total_graphs (visual_stats (visual_async_extract cv pdf)) =
     length (graphs (visual_async_extract cv pdf)) \<and>
   total_images (visual_stats (visual_async_extract cv pdf)) =
     length (images (visual_async_extract cv pdf)) \<and>
   total_text_extracted (visual_stats (visual_async_extract cv pdf)) =
     (\<Sum>g\<leftarrow>graphs (visual_async_extract cv pdf). length (split (g_extracted_text g))) +
     (\<Sum>m\<leftarrow>images (visual_async_extract cv pdf). length (split (i_extracted_text m)))"
proof (cases pdf)
  case (Inl e)
  then show ?thesis by (simp add: visual_async_extract_def no_visual_elements_def)
next
  case (Inr imgs)
  have "visual_async_extract cv pdf = visual_loop cv 1 imgs (no_visual_elements None)"
    using Inr by (simp add: visual_async_extract_def)
  moreover have "total_graphs (visual_stats (visual_loop cv 1 imgs (no_visual_elements None))) = length (graphs (visual_loop cv 1 imgs (no_visual_elements None)))
    \<and> total_images (visual_stats (visual_loop cv 1 imgs (no_visual_elements None))) = length (images (visual_loop cv 1 imgs (no_visual_elements None)))
    \<and> total_text_extracted (visual_stats (visual_loop cv 1 imgs (no_visual_elements None))) =
           (\<Sum>g\<leftarrow>graphs (visual_loop cv 1 imgs (no_visual_elements None)). length (split (g_extracted_text g))) +
           (\<Sum>m\<leftarrow>images (visual_loop cv 1 imgs (no_visual_elements None)). length (split (i_extracted_text m)))"
    by (rule visual_loop_counts) (simp_all add: no_visual_elements_def)
  ultimately show ?thesis by simp
qed

theorem visual_statistics_consistent_witness:
  "total_graphs (visual_stats
      (visual_async_extract stub_vision (Inr [''chart'', ''photo'', ''blank'']))) = 1 \<and>
   total_images (visual_stats
      (visual_async_extract stub_vision (Inr [''chart'', ''photo'', ''blank'']))) = 1 \<and>
   total_text_extracted (visual_stats
      (visual_async_extract stub_vision (Inr [''chart'', ''photo'', ''blank'']))) = 3 + 2"
  using visual_statistics_consistent [of stub_vision "Inr [''chart'', ''photo'', ''blank'']"]
  by (simp add: stub_run stub_words)

text \<open>The records of one page among those of the loop: those of its own step.\<close>

lemma classify_lines_filter:
  "classify_lines cv lines (hs, vs) =
     (hs @ filter (\<lambda>l. angle cv l < 10 \<or> angle cv l > 170) lines,
      vs @ filter (\<lambda>l. 80 < angle cv l \<and> angle cv l < 100) lines)"
  by (induction lines arbitrary: hs vs) auto

lemma detect_graph_iff:
  "(detect_and_process_graph cv img \<noteq> None) =
   (\<exists>lines. hough_lines cv img = Inr (Some lines) \<and>
      2 \<le> length (filter (\<lambda>l. angle cv l < 10 \<or> angle cv l > 170) lines) \<and>
      2 \<le> length (filter (\<lambda>l. 80 < angle cv l \<and> angle cv l < 100) lines))"
  by (auto simp: detect_and_process_graph_def classify_lines_filter split: sum.splits option.splits)

lemma graphs_visual_step:
  "filter (\<lambda>g. g_page_number g = k) (graphs (visual_step cv n img ve)) =
   filter (\<lambda>g. g_page_number g = k) (graphs ve) @
   (if n = k then graphs (visual_step cv k img (no_visual_elements None)) else [])"
  by (simp add: visual_step_def Let_def no_visual_elements_def split: option.splits)

lemma images_visual_step:
  "filter (\<lambda>m. i_page_number m = k) (images (visual_step cv n img ve)) =
   filter (\<lambda>m. i_page_number m = k) (images ve) @
   (if n = k then images (visual_step cv k img (no_visual_elements None)) else [])"
  by (simp add: visual_step_def Let_def no_visual_elements_def split: option.splits)

lemma graphs_visual_loop:
  "filter (\<lambda>g. g_page_number g = k) (graphs (visual_loop cv n imgs ve)) =
   filter (\<lambda>g. g_page_number g = k) (graphs ve) @
   (if n \<le> k \<and> k < n + length imgs
    then graphs (visual_step cv k (imgs ! (k - n)) (no_visual_elements None)) else [])"
proof (induction imgs arbitrary: n ve)
  case Nil
  show ?case by auto
next
  case (Cons img imgs)
  have "k - n = Suc (k - Suc n)" if "Suc n \<le> k" using that by simp
  then show ?case
    using Cons.IH[of "Suc n" "visual_step cv n img ve"]
    by (auto simp: graphs_visual_step)
qed

lemma images_visual_loop:
  "filter (\<lambda>m. i_page_number m = k) (images (visual_loop cv n imgs ve)) =
   filter (\<lambda>m. i_page_number m = k) (images ve) @
   (if n \<le> k \<and> k < n + length imgs
    then images (visual_step cv k (imgs ! (k - n)) (no_visual_elements None)) else [])"
proof (induction imgs arbitrary: n ve)
  case Nil
  show ?case by auto
next
  case (Cons img imgs)
  have "k - n = Suc (k - Suc n)" if "Suc n \<le> k" using that by simp
  then show ?case
    using Cons.IH[of "Suc n" "visual_step cv n img ve"]
    by (auto simp: images_visual_step)
qed

text \<open>
  Claim C7. For a page of the document on which the line detection yields at least 2
  horizontal segments (angle below 10 or above 170) and at least 2 vertical segments
  (angle strictly between 80 and 100), \<open>async_extract\<close> records exactly one graph and no
  image; and for a page whose OCR text is empty after trimming it records no image.
\<close>

theorem graph_page_never_image:
  assumes "i < length imgs"
  shows "(hough_lines cv (imgs ! i) = Inr (Some lines) \<and>
          2 \<le> length (filter (\<lambda>l. angle cv l < 10 \<or> angle cv l > 170) lines) \<and>
          2 \<le> length (filter (\<lambda>l. 80 < angle cv l \<and> angle cv l < 100) lines) \<longrightarrow>
          length (filter (\<lambda>g. g_page_number g = i + 1)
                    (graphs (visual_async_extract cv (Inr imgs)))) = 1 \<and>
          filter (\<lambda>m. i_page_number m = i + 1)
            (images (visual_async_extract cv (Inr imgs))) = [])
       \<and> (strip (extract_text_from_region cv (imgs ! i) ocr_config_text) = [] \<longrightarrow>
          filter (\<lambda>m. i_page_number m = i + 1)
            (images (visual_async_extract cv (Inr imgs))) = [])"
proof -
  have g: "filter (\<lambda>g. g_page_number g = i + 1) (graphs (visual_async_extract cv (Inr imgs))) =
      graphs (visual_step cv (i + 1) (imgs ! i) (no_visual_elements None))"
    using assms graphs_visual_loop[of "i + 1" cv 1 imgs "no_visual_elements None"]
    by (simp add: visual_async_extract_def no_visual_elements_def)
  have m: "filter (\<lambda>m. i_page_number m = i + 1) (images (visual_async_extract cv (Inr imgs))) =
      images (visual_step cv (i + 1) (imgs ! i) (no_visual_elements None))"
    using assms images_visual_loop[of "i + 1" cv 1 imgs "no_visual_elements None"]
    by (simp add: visual_async_extract_def no_visual_elements_def)
  have graph: "length (graphs (visual_step cv (i + 1) (imgs ! i) (no_visual_elements None))) = 1 \<and>
      images (visual_step cv (i + 1) (imgs ! i) (no_visual_elements None)) = []"
    if "hough_lines cv (imgs ! i) = Inr (Some lines)"
      "2 \<le> length (filter (\<lambda>l. angle cv l < 10 \<or> angle cv l > 170) lines)"
      "2 \<le> length (filter (\<lambda>l. 80 < angle cv l \<and> angle cv l < 100) lines)"
  proof -
    from that have "detect_and_process_graph cv (imgs ! i) \<noteq> None"
      unfolding detect_graph_iff by blast
    then show ?thesis
      by (auto simp: visual_step_def Let_def no_visual_elements_def)
  qed
  have blank: "images (visual_step cv (i + 1) (imgs ! i) (no_visual_elements None)) = []"
    if "strip (extract_text_from_region cv (imgs ! i) ocr_config_text) = []"
    using that by (simp add: visual_step_def Let_def no_visual_elements_def split: option.splits)
  show ?thesis
    unfolding g m using graph blank by blast
qed

theorem graph_page_never_image_witness:
  "(0::nat) < length [''chart'', ''photo'', ''blank''] \<and>
   hough_lines stub_vision ([''chart'', ''photo'', ''blank''] ! 0) =
     Inr (Some [(0, 0, 100, 0), (0, 0, 0, 100), (0, 50, 100, 50), (50, 0, 50, 100)]) \<and>
   2 \<le> length (filter (\<lambda>l. angle stub_vision l < 10 \<or> angle stub_vision l > 170)
     [(0, 0, 100, 0), (0, 0, 0, 100), (0, 50, 100, 50), (50, 0, 50, 100)]) \<and>
   2 \<le> length (filter (\<lambda>l. 80 < angle stub_vision l \<and> angle stub_vision l < 100)
     [(0, 0, 100, 0), (0, 0, 0, 100), (0, 50, 100, 50), (50, 0, 50, 100)]) \<and>
   length (filter (\<lambda>g. g_page_number g = 1)
     (graphs (visual_async_extract stub_vision (Inr [''chart'', ''photo'', ''blank''])))) = 1 \<and>
   filter (\<lambda>m. i_page_number m = 1)
     (images (visual_async_extract stub_vision (Inr [''chart'', ''photo'', ''blank'']))) = [] \<and>
   (2::nat) < length [''chart'', ''photo'', ''blank''] \<and>
   strip (extract_text_from_region stub_vision ([''chart'', ''photo'', ''blank''] ! 2)
     ocr_config_text) = [] \<and>
   filter (\<lambda>m. i_page_number m = 3)
     (images (visual_async_extract stub_vision (Inr [''chart'', ''photo'', ''blank'']))) = []"
proof -
  have h: "hough_lines stub_vision ''chart'' =
      Inr (Some [(0, 0, 100, 0), (0, 0, 0, 100), (0, 50, 100, 50), (50, 0, 50, 100)])"
    by (simp add: stub_vision_def)
  have a: "angle stub_vision = (\<lambda>(x1, y1, x2, y2). if y1 = y2 then 0 else 90)"
    by (simp add: stub_vision_def)
  show ?thesis
    using graph_page_never_image
        [of 0 "[''chart'', ''photo'', ''blank'']" stub_vision
            "[(0, 0, 100, 0), (0, 0, 0, 100), (0, 50, 100, 50), (50, 0, 50, 100)]"]
      graph_page_never_image
        [of 2 "[''chart'', ''photo'', ''blank'']" stub_vision "[]"]
    by (simp add: h a stub_text stub_words)
qed


section \<open>Properties of the graph sub-type\<close>

text \<open>
  The rounding to float64: the binary exponent brackets its argument, and the rounded
  value differs from the exact one by at most half a unit of the last place, hence by
  at most \<open>|x| / 2^53\<close>.
\<close>

lemma binary_exponent_bounds:
  assumes "0 < x"
  shows "2 powi binary_exponent x \<le> x" and "x < 2 powi (binary_exponent x + 1)"
proof -
  show "2 powi binary_exponent x \<le> x"
  proof (cases "1 \<le> x")
    case True
    let ?m = "\<lfloor>x\<rfloor>"
    have m: "0 < ?m" using True by simp
    have e: "binary_exponent x = int (nat (bitlen ?m - 1))"
      using True m bitlen_bounds[OF m] by (simp add: binary_exponent_def bitlen_alt_def)
    have "(2::rat) powi binary_exponent x = of_int (2 ^ nat (bitlen ?m - 1))"
      unfolding e power_int_of_nat by simp
    also have "\<dots> \<le> of_int ?m"
      using bitlen_bounds[OF m] by (simp only: of_int_le_iff)
    also have "\<dots> \<le> x" by simp
    finally show ?thesis .
  next
    case False
    let ?c = "\<lceil>1 / x\<rceil>"
    from False assms have "1 < 1 / x" by simp
    then have c: "0 < ?c - 1" by (simp add: less_ceiling_iff)
    let ?k = "bitlen (?c - 1)"
    have k: "0 \<le> ?k" by (rule bitlen_nonneg)
    have "1 / x \<le> of_int ?c" by simp
    also have "?c \<le> 2 ^ nat ?k" using bitlen_bounds[OF c] by simp
    finally have "1 / x \<le> 2 ^ nat ?k" by simp
    then have "1 / 2 ^ nat ?k \<le> x" using assms
      by (simp add: field_simps)
    moreover have "(2::rat) powi binary_exponent x = 1 / 2 ^ nat ?k"
      using False k by (simp add: binary_exponent_def power_int_def field_simps)
    ultimately show ?thesis by simp
  qed
  show "x < 2 powi (binary_exponent x + 1)"
  proof (cases "1 \<le> x")
    case True
    let ?m = "\<lfloor>x\<rfloor>"
    have m: "0 < ?m" using True by simp
    have b1: "1 \<le> bitlen ?m" using m by (auto simp: bitlen_alt_def)
    have e: "binary_exponent x + 1 = int (nat (bitlen ?m))"
      using True b1 by (simp add: binary_exponent_def)
    have "?m + 1 \<le> 2 ^ nat (bitlen ?m)" using bitlen_bounds[OF m] by simp
    then have "(of_int (?m + 1) :: rat) \<le> of_int (2 ^ nat (bitlen ?m))"
      by (simp only: of_int_le_iff)
    moreover have "x < of_int (?m + 1)" by linarith
    ultimately have "x < of_int (2 ^ nat (bitlen ?m))" by linarith
    then show ?thesis unfolding e power_int_of_nat by simp
  next
    case False
    let ?c = "\<lceil>1 / x\<rceil>"
    from False assms have "1 < 1 / x" by simp
    then have c: "0 < ?c - 1" by (simp add: less_ceiling_iff)
    let ?k = "bitlen (?c - 1)"
    have k1: "1 \<le> ?k" using c by (auto simp: bitlen_alt_def)
    have "(2::rat) ^ nat (?k - 1) = of_int (2 ^ nat (?k - 1))" by simp
    also have "\<dots> \<le> of_int (?c - 1)"
      using bitlen_bounds[OF c] by (simp only: of_int_le_iff)
    also have "\<dots> < 1 / x" by (simp add: ceiling_correct)
    finally have "(2::rat) ^ nat (?k - 1) < 1 / x" .
    then have "x < 1 / 2 ^ nat (?k - 1)" using assms
      by (simp add: field_simps)
    moreover have "(2::rat) powi (binary_exponent x + 1) = 1 / 2 ^ nat (?k - 1)"
      using False k1 by (simp add: binary_exponent_def power_int_def field_simps nat_diff_distrib)
    ultimately show ?thesis by simp
  qed
qed

lemma round_half_even_error: "\<bar>of_int (round_half_even q) - q\<bar> \<le> 1 / 2"
proof -
  show ?thesis
    unfolding round_half_even_def Let_def by (auto simp: abs_if; linarith)
qed

lemma round_float64_error:
  assumes "x \<noteq> 0"
  shows "\<bar>round_float64 x - x\<bar> \<le> 2 powi (binary_exponent \<bar>x\<bar> - 53)"
proof -
  let ?u = "(2::rat) powi (binary_exponent \<bar>x\<bar> - 52)"
  have u: "0 < ?u" by simp
  have "round_float64 x - x = (of_int (round_half_even (x / ?u)) - x / ?u) * ?u"
    using assms u by (simp add: round_float64_def Let_def field_simps)
  then have "\<bar>round_float64 x - x\<bar> = \<bar>of_int (round_half_even (x / ?u)) - x / ?u\<bar> * ?u"
    using u by (simp add: abs_mult)
  also have "\<dots> \<le> 1 / 2 * ?u"
    using round_half_even_error[of "x / ?u"] u by (intro mult_right_mono) simp_all
  also have "\<dots> = 2 powi (binary_exponent \<bar>x\<bar> - 53)"
    by (simp add: power_int_diff)
  finally show ?thesis .
qed

lemma round_float64_relative:
  "\<bar>round_float64 x - x\<bar> \<le> \<bar>x\<bar> / 2 ^ 53"
proof (cases "x = 0")
  case True
  then show ?thesis by (simp add: round_float64_def)
next
  case False
  then have p: "0 < \<bar>x\<bar>" by simp
  have "\<bar>round_float64 x - x\<bar> \<le> 2 powi (binary_exponent \<bar>x\<bar> - 53)"
    using False by (rule round_float64_error)
  also have "\<dots> = 2 powi binary_exponent \<bar>x\<bar> / 2 ^ 53"
    by (simp add: power_int_diff)
  also have "\<dots> \<le> \<bar>x\<bar> / 2 ^ 53"
    using binary_exponent_bounds(1)[OF p] by (simp add: divide_right_mono)
  finally show ?thesis .
qed

text \<open>
  The means of spacings of pixel coordinates, and the float64 rule against the rule
  over exact means: they agree unless the exact difference is within \<open>2^-20\<close> of 10.
\<close>

lemma gaps_bounds:
  "\<forall>c \<in> set cs. 0 \<le> c \<and> c \<le> B \<Longrightarrow> \<forall>g \<in> set (gaps cs). 0 \<le> g \<and> g \<le> B"
  by (induction cs rule: gaps.induct) auto

lemma length_gaps: "length (gaps cs) = length cs - 1"
  by (induction cs rule: gaps.induct) auto

lemma sum_list_bounds:
  "\<forall>x \<in> set xs. 0 \<le> x \<and> x \<le> B \<Longrightarrow>
   0 \<le> sum_list xs \<and> sum_list xs \<le> int (length xs) * (B::int)"
  by (induction xs) (auto simp: algebra_simps)

lemma exact_mean_bounds:
  assumes "xs \<noteq> []" and "\<forall>x \<in> set xs. 0 \<le> x \<and> x \<le> B"
  shows "0 \<le> exact_mean xs" and "exact_mean xs \<le> of_int B"
proof -
  have n: "0 < (of_nat (length xs) :: rat)" using assms(1) by simp
  have s: "0 \<le> sum_list xs" "sum_list xs \<le> int (length xs) * B"
    using sum_list_bounds[OF assms(2)] by auto
  show "0 \<le> exact_mean xs"
    using s(1) by (simp add: exact_mean_def)
  have "(of_int (sum_list xs) :: rat) \<le> of_int (int (length xs) * B)"
    using s(2) by (simp only: of_int_le_iff)
  then have "(of_int (sum_list xs) :: rat) \<le> of_nat (length xs) * of_int B" by simp
  then show "exact_mean xs \<le> of_int B"
    using n by (simp add: exact_mean_def field_simps)
qed

lemma rounded_difference_error:
  assumes a: "0 \<le> a" "a \<le> 2 ^ 31" and b: "0 \<le> b" "b \<le> 2 ^ 31"
  shows "\<bar>round_float64 (round_float64 a - round_float64 b) - (a - b)\<bar> \<le> 1 / 2 ^ 20"
proof -
  let ?fa = "round_float64 a" and ?fb = "round_float64 b"
  let ?d = "?fa - ?fb"
  have ea: "\<bar>?fa - a\<bar> \<le> 1 / 2 ^ 22"
  proof -
    have "\<bar>?fa - a\<bar> \<le> \<bar>a\<bar> / 2 ^ 53" by (rule round_float64_relative)
    also have "\<dots> \<le> 2 ^ 31 / 2 ^ 53" using a by (simp add: divide_right_mono)
    finally show ?thesis by simp
  qed
  have eb: "\<bar>?fb - b\<bar> \<le> 1 / 2 ^ 22"
  proof -
    have "\<bar>?fb - b\<bar> \<le> \<bar>b\<bar> / 2 ^ 53" by (rule round_float64_relative)
    also have "\<dots> \<le> 2 ^ 31 / 2 ^ 53" using b by (simp add: divide_right_mono)
    finally show ?thesis by simp
  qed
  have dd: "\<bar>?d - (a - b)\<bar> \<le> 2 / 2 ^ 22" using ea eb by linarith
  have "\<bar>a - b\<bar> \<le> 2 ^ 31" using a b by linarith
  then have "\<bar>?d\<bar> \<le> 2 ^ 31 + 2 / 2 ^ 22" using dd by linarith
  then have "\<bar>?d\<bar> \<le> 2 ^ 32" by simp
  have "\<bar>round_float64 ?d - ?d\<bar> \<le> \<bar>?d\<bar> / 2 ^ 53" by (rule round_float64_relative)
  also have "\<dots> \<le> 2 ^ 32 / 2 ^ 53" using \<open>\<bar>?d\<bar> \<le> 2 ^ 32\<close> by (simp add: divide_right_mono)
  finally have "\<bar>round_float64 ?d - ?d\<bar> \<le> 1 / 2 ^ 21" by simp
  then have "\<bar>round_float64 ?d - (a - b)\<bar> \<le> 1 / 2 ^ 21 + 2 / 2 ^ 22" using dd by linarith
  then show ?thesis by simp
qed

lemma float64_graph_type_exact:
  assumes "2 \<le> length horizontal_lines" and "2 \<le> length vertical_lines"
    and "\<forall>l \<in> set vertical_lines. 0 \<le> x1_of l \<and> x1_of l < 2 ^ 31"
    and "\<forall>l \<in> set horizontal_lines. 0 \<le> y1_of l \<and> y1_of l < 2 ^ 31"
    and "\<bar>exact_mean (gaps (map x1_of vertical_lines)) -
          exact_mean (gaps (map y1_of horizontal_lines))\<bar> < 10 - 1 / 2 ^ 20 \<or>
         10 + 1 / 2 ^ 20 \<le>
         \<bar>exact_mean (gaps (map x1_of vertical_lines)) -
          exact_mean (gaps (map y1_of horizontal_lines))\<bar>"
  shows "float64_graph_type horizontal_lines vertical_lines =
         stated_graph_type horizontal_lines vertical_lines"
proof -
  let ?vs = "gaps (map x1_of vertical_lines)" and ?hs = "gaps (map y1_of horizontal_lines)"
  let ?a = "exact_mean ?vs" and ?b = "exact_mean ?hs"
  have ne: "?vs \<noteq> []" "?hs \<noteq> []"
    using assms(1,2) length_gaps[of "map x1_of vertical_lines"]
      length_gaps[of "map y1_of horizontal_lines"] by auto
  have "\<forall>g \<in> set ?vs. 0 \<le> g \<and> g \<le> 2 ^ 31"
    by (rule gaps_bounds) (use assms(3) in auto)
  then have a: "0 \<le> ?a" "?a \<le> 2 ^ 31"
    using exact_mean_bounds[OF ne(1), of "2 ^ 31"] by auto
  have "\<forall>g \<in> set ?hs. 0 \<le> g \<and> g \<le> 2 ^ 31"
    by (rule gaps_bounds) (use assms(4) in auto)
  then have b: "0 \<le> ?b" "?b \<le> 2 ^ 31"
    using exact_mean_bounds[OF ne(2), of "2 ^ 31"] by auto
  let ?fd = "round_float64 (round_float64 ?a - round_float64 ?b)"
  have err: "\<bar>?fd - (?a - ?b)\<bar> \<le> 1 / 2 ^ 20"
    using a b by (rule rounded_difference_error)
  have "(\<bar>?fd\<bar> < 10) = (\<bar>?a - ?b\<bar> < 10)"
    using err assms(5) by (auto simp: abs_if split: if_splits)
  then show ?thesis
    using ne by (simp add: float64_graph_type_def stated_graph_type_def rounded_mean_def)
qed

text \<open>The spacings of the source are the gaps between consecutive coordinates.\<close>

lemma spacings_gaps:
  "v_spacings ls = gaps (map x1_of ls)" "h_spacings ls = gaps (map y1_of ls)"
proof -
  have "map (\<lambda>((x1, _), (x2, _)). \<bar>x1 - x2\<bar>) (zip (butlast ls) (tl ls)) = gaps (map x1_of ls)"
    by (induction ls rule: induct_list012) (auto simp: x1_of_def split: prod.splits)
  then show "v_spacings ls = gaps (map x1_of ls)"
    by (simp add: v_spacings_def)
  have "map (\<lambda>((_, y1, _), (_, y2, _)). \<bar>y1 - y2\<bar>) (zip (butlast ls) (tl ls)) =
        gaps (map y1_of ls)"
    by (induction ls rule: induct_list012) (auto simp: y1_of_def split: prod.splits)
  then show "h_spacings ls = gaps (map y1_of ls)"
    by (simp add: h_spacings_def)
qed

lemma float64_mean_rounded: "float64_mean xs = Inr (rounded_mean xs)"
  by (simp add: float64_mean_def rounded_mean_def exact_mean_def)

lemma determine_graph_type_float64:
  assumes "np_mean cv = float64_mean" and "differ_lt_10 cv = float64_differ_lt_10"
  shows "determine_graph_type cv horizontal_lines vertical_lines =
         float64_graph_type horizontal_lines vertical_lines"
  using assms
  by (simp add: determine_graph_type_def float64_graph_type_def spacings_gaps
      float64_mean_rounded float64_differ_lt_10_def split: float64.splits)

text \<open>
  Claim C8, as stated, fails. For four vertical lines at x = 0, 10, 30, 55 and four
  horizontal lines at y = 0, 5, 15, 25, detected in this order, the mean spacings are
  55/3 and 25/3 and differ by exactly 10, which is not less than 10, so the stated
  rule gives \<open>line_graph\<close>. In float64 the means are rounded to 18.333333333333332 and
  8.333333333333334, their difference is 9.999999999999998, and the code returns
  \<open>grid_chart\<close>.
\<close>

theorem exact_means_differ:
  "stated_graph_type [(0, 0, 200, 0), (0, 5, 200, 5), (0, 15, 200, 15), (0, 25, 200, 25)]
     [(0, 0, 0, 200), (10, 0, 10, 200), (30, 0, 30, 200), (55, 0, 55, 200)] = ''line_graph'' \<and>
   determine_graph_type numpy_vision
     [(0, 0, 200, 0), (0, 5, 200, 5), (0, 15, 200, 15), (0, 25, 200, 25)]
     [(0, 0, 0, 200), (10, 0, 10, 200), (30, 0, 30, 200), (55, 0, 55, 200)] = ''grid_chart''"
  by code_simp

text \<open>
  Claim C8, amended. With NumPy's float64 arithmetic the sub-type is decided by the
  float64 rule: the mean spacing between the x-coordinates of consecutively detected
  vertical lines and between the y-coordinates of consecutively detected horizontal
  lines, each the sum of the spacings divided by their number and rounded;
  \<open>grid_chart\<close> if the rounded difference of the two means is below 10 in absolute
  value, else \<open>bar_chart\<close> if there are more vertical than horizontal lines, else
  \<open>line_graph\<close>. For a detected graph (at least two lines of each kind) with pixel
  coordinates from 0 to below 2^31 this is the rule over exact means whenever the exact
  means do not differ from each other by a value within 2^-20 of 10. An exception
  raised while a mean is computed yields \<open>unknown_graph_type\<close>.
\<close>

theorem graph_type_rule:
  "(np_mean cv = float64_mean \<and> differ_lt_10 cv = float64_differ_lt_10 \<longrightarrow>
      determine_graph_type cv horizontal_lines vertical_lines =
        float64_graph_type horizontal_lines vertical_lines) \<and>
   (np_mean cv = float64_mean \<and> differ_lt_10 cv = float64_differ_lt_10 \<and>
    2 \<le> length horizontal_lines \<and> 2 \<le> length vertical_lines \<and>
    (\<forall>l \<in> set vertical_lines. 0 \<le> x1_of l \<and> x1_of l < 2 ^ 31) \<and>
    (\<forall>l \<in> set horizontal_lines. 0 \<le> y1_of l \<and> y1_of l < 2 ^ 31) \<and>
    (\<bar>exact_mean (gaps (map x1_of vertical_lines)) -
      exact_mean (gaps (map y1_of horizontal_lines))\<bar> < 10 - 1 / 2 ^ 20 \<or>
     10 + 1 / 2 ^ 20 \<le>
     \<bar>exact_mean (gaps (map x1_of vertical_lines)) -
      exact_mean (gaps (map y1_of horizontal_lines))\<bar>) \<longrightarrow>
      determine_graph_type cv horizontal_lines vertical_lines =
        stated_graph_type horizontal_lines vertical_lines) \<and>
   (np_mean cv (gaps (map x1_of vertical_lines)) = Inl e \<or>
    np_mean cv (gaps (map y1_of horizontal_lines)) = Inl e \<longrightarrow>
      determine_graph_type cv horizontal_lines vertical_lines = ''unknown_graph_type'')"
proof (intro conjI impI)
  assume "np_mean cv = float64_mean \<and> differ_lt_10 cv = float64_differ_lt_10"
  then show "determine_graph_type cv horizontal_lines vertical_lines =
        float64_graph_type horizontal_lines vertical_lines"
    by (simp add: determine_graph_type_float64)
next
  assume h: "np_mean cv = float64_mean \<and> differ_lt_10 cv = float64_differ_lt_10 \<and>
    2 \<le> length horizontal_lines \<and> 2 \<le> length vertical_lines \<and>
    (\<forall>l \<in> set vertical_lines. 0 \<le> x1_of l \<and> x1_of l < 2 ^ 31) \<and>
    (\<forall>l \<in> set horizontal_lines. 0 \<le> y1_of l \<and> y1_of l < 2 ^ 31) \<and>
    (\<bar>exact_mean (gaps (map x1_of vertical_lines)) -
      exact_mean (gaps (map y1_of horizontal_lines))\<bar> < 10 - 1 / 2 ^ 20 \<or>
     10 + 1 / 2 ^ 20 \<le>
     \<bar>exact_mean (gaps (map x1_of vertical_lines)) -
      exact_mean (gaps (map y1_of horizontal_lines))\<bar>)"
  then have "determine_graph_type cv horizontal_lines vertical_lines =
      float64_graph_type horizontal_lines vertical_lines"
    by (simp add: determine_graph_type_float64)
  also have "\<dots> = stated_graph_type horizontal_lines vertical_lines"
    by (rule float64_graph_type_exact) (use h in blast)+
  finally show "determine_graph_type cv horizontal_lines vertical_lines =
      stated_graph_type horizontal_lines vertical_lines" .
next
  assume "np_mean cv (gaps (map x1_of vertical_lines)) = Inl e \<or>
    np_mean cv (gaps (map y1_of horizontal_lines)) = Inl e"
  then show "determine_graph_type cv horizontal_lines vertical_lines = ''unknown_graph_type''"
    by (auto simp: determine_graph_type_def spacings_gaps split: sum.splits)
qed

theorem graph_type_rule_witness:
  "np_mean numpy_vision = float64_mean \<and> differ_lt_10 numpy_vision = float64_differ_lt_10 \<and>
   determine_graph_type numpy_vision
     [(0, 0, 200, 0), (0, 5, 200, 5), (0, 15, 200, 15), (0, 25, 200, 25)]
     [(0, 0, 0, 200), (10, 0, 10, 200), (30, 0, 30, 200), (55, 0, 55, 200)] = ''grid_chart'' \<and>
   exact_mean (gaps (map x1_of [(0, 0, 0, 100), (40, 0, 40, 100), (90, 0, 90, 100)])) = 45 \<and>
   exact_mean (gaps (map y1_of [(0, 0, 100, 0), (0, 7, 100, 7)])) = 7 \<and>
   determine_graph_type numpy_vision [(0, 0, 100, 0), (0, 7, 100, 7)]
     [(0, 0, 0, 100), (40, 0, 40, 100), (90, 0, 90, 100)] = ''bar_chart'' \<and>
   np_mean raising_vision (gaps (map x1_of [(0, 0, 0, 200), (10, 0, 10, 200)])) =
     Inl (Exception ''MemoryError'') \<and>
   determine_graph_type raising_vision [(0, 0, 200, 0), (0, 5, 200, 5)]
     [(0, 0, 0, 200), (10, 0, 10, 200)] = ''unknown_graph_type''"
proof -
  have ops: "np_mean numpy_vision = float64_mean"
    "differ_lt_10 numpy_vision = float64_differ_lt_10"
    by (simp_all add: numpy_vision_def)
  have rule: "float64_graph_type
     [(0, 0, 200, 0), (0, 5, 200, 5), (0, 15, 200, 15), (0, 25, 200, 25)]
     [(0, 0, 0, 200), (10, 0, 10, 200), (30, 0, 30, 200), (55, 0, 55, 200)] = ''grid_chart''"
    by code_simp
  have a: "determine_graph_type numpy_vision
     [(0, 0, 200, 0), (0, 5, 200, 5), (0, 15, 200, 15), (0, 25, 200, 25)]
     [(0, 0, 0, 200), (10, 0, 10, 200), (30, 0, 30, 200), (55, 0, 55, 200)] = ''grid_chart''"
    using graph_type_rule [of numpy_vision
        "[(0, 0, 200, 0), (0, 5, 200, 5), (0, 15, 200, 15), (0, 25, 200, 25)]"
        "[(0, 0, 0, 200), (10, 0, 10, 200), (30, 0, 30, 200), (55, 0, 55, 200)]"] ops rule
    by presburger
  have mv: "exact_mean (gaps (map x1_of [(0, 0, 0, 100), (40, 0, 40, 100), (90, 0, 90, 100)]))
      = 45"
    by code_simp
  have mh: "exact_mean (gaps (map y1_of [(0, 0, 100, 0), (0, 7, 100, 7)])) = 7"
    by code_simp
  have st: "stated_graph_type [(0, 0, 100, 0), (0, 7, 100, 7)]
     [(0, 0, 0, 100), (40, 0, 40, 100), (90, 0, 90, 100)] = ''bar_chart''"
    by code_simp
  have bv: "\<forall>l \<in> set [(0, 0, 0, 100), (40, 0, 40, 100), (90, 0, 90, 100)].
      0 \<le> x1_of l \<and> x1_of l < 2 ^ 31"
    by (simp add: x1_of_def)
  have bh: "\<forall>l \<in> set [(0, 0, 100, 0), (0, 7, 100, 7)]. 0 \<le> y1_of l \<and> y1_of l < 2 ^ 31"
    by (simp add: y1_of_def)
  have far: "10 + 1 / 2 ^ 20 \<le>
      \<bar>exact_mean (gaps (map x1_of [(0, 0, 0, 100), (40, 0, 40, 100), (90, 0, 90, 100)])) -
       exact_mean (gaps (map y1_of [(0, 0, 100, 0), (0, 7, 100, 7)]))\<bar>"
    unfolding mv mh by simp
  have len: "2 \<le> length [(0::int, 0::int, 100::int, 0::int), (0, 7, 100, 7)]"
    "2 \<le> length [(0::int, 0::int, 0::int, 100::int), (40, 0, 40, 100), (90, 0, 90, 100)]"
    by simp_all
  have "determine_graph_type numpy_vision [(0, 0, 100, 0), (0, 7, 100, 7)]
     [(0, 0, 0, 100), (40, 0, 40, 100), (90, 0, 90, 100)] =
     stated_graph_type [(0, 0, 100, 0), (0, 7, 100, 7)]
     [(0, 0, 0, 100), (40, 0, 40, 100), (90, 0, 90, 100)]"
    by (rule mp [OF graph_type_rule [of numpy_vision "[(0, 0, 100, 0), (0, 7, 100, 7)]"
        "[(0, 0, 0, 100), (40, 0, 40, 100), (90, 0, 90, 100)]", THEN conjunct2, THEN conjunct1]])
      (intro conjI ops len bv bh disjI2 far)
  then have b: "determine_graph_type numpy_vision [(0, 0, 100, 0), (0, 7, 100, 7)]
     [(0, 0, 0, 100), (40, 0, 40, 100), (90, 0, 90, 100)] = ''bar_chart''"
    by (simp only: st)
  have raises: "np_mean raising_vision (gaps (map x1_of [(0, 0, 0, 200), (10, 0, 10, 200)])) =
     Inl (Exception ''MemoryError'')"
    by (simp add: raising_vision_def)
  have c: "determine_graph_type raising_vision [(0, 0, 200, 0), (0, 5, 200, 5)]
     [(0, 0, 0, 200), (10, 0, 10, 200)] = ''unknown_graph_type''"
    using graph_type_rule [of raising_vision "[(0, 0, 200, 0), (0, 5, 200, 5)]"
        "[(0, 0, 0, 200), (10, 0, 10, 200)]" "Exception ''MemoryError''"] raises
    by blast
  show ?thesis
    by (intro conjI ops a mv mh b raises c)
qed


section \<open>Properties of the Text Structurer's paragraphs\<close>

text \<open>Trimming: the ends of a trimmed string, idempotence, and blank strings.\<close>

lemma last_dropWhile_ne: "dropWhile P xs \<noteq> [] \<Longrightarrow> last (dropWhile P xs) = last xs"
  by (induction xs) (auto split: if_splits)

lemma strip_ends:
  assumes "strip s \<noteq> []"
  shows "\<not> char_isspace (hd (strip s))" and "\<not> char_isspace (last (strip s))"
proof -
  let ?t = "dropWhile char_isspace s"
  let ?u = "dropWhile char_isspace (rev ?t)"
  from assms have u: "?u \<noteq> []" by (simp add: strip_def)
  then have t: "?t \<noteq> []" by (metis dropWhile.simps(1) rev.simps(1))
  have "\<not> char_isspace (hd ?u)" using u by (rule hd_dropWhile)
  then show "\<not> char_isspace (last (strip s))" using u by (simp add: strip_def last_rev)
  have "last ?u = last (rev ?t)" using u by (rule last_dropWhile_ne)
  also have "\<dots> = hd ?t" using t by (simp add: last_rev)
  finally have "last ?u = hd ?t" .
  moreover have "\<not> char_isspace (hd ?t)" using t by (rule hd_dropWhile)
  ultimately show "\<not> char_isspace (hd (strip s))" using u by (simp add: strip_def hd_rev)
qed

lemma dropWhile_self: "xs = [] \<or> \<not> P (hd xs) \<Longrightarrow> dropWhile P xs = xs"
  by (cases xs) auto

lemma strip_strip: "strip (strip s) = strip s"
proof (cases "strip s = []")
  case True
  then show ?thesis by (simp add: strip_Nil)
next
  case False
  have a: "dropWhile char_isspace (strip s) = strip s"
    using strip_ends(1)[OF False] by (simp add: dropWhile_self)
  have b: "dropWhile char_isspace (rev (strip s)) = rev (strip s)"
    using strip_ends(2)[OF False] False by (simp add: dropWhile_self hd_rev)
  show ?thesis
    unfolding strip_def[of "strip s"] a b by simp
qed

lemma strip_eq_Nil: "(strip s = []) = (\<forall>c \<in> set s. char_isspace c)"
proof -
  let ?t = "dropWhile char_isspace s"
  have 1: "(strip s = []) = (dropWhile char_isspace (rev ?t) = [])"
    by (simp add: strip_def)
  have 2: "(dropWhile char_isspace (rev ?t) = []) = (\<forall>c \<in> set ?t. char_isspace c)"
    unfolding dropWhile_eq_Nil_conv by simp
  have 3: "(\<forall>c \<in> set ?t. char_isspace c) = (?t = [])"
    using hd_dropWhile[of char_isspace s] hd_in_set[of ?t]
    by (metis empty_iff empty_set)
  have 4: "(?t = []) = (\<forall>c \<in> set s. char_isspace c)"
    by (rule dropWhile_eq_Nil_conv)
  show ?thesis
    unfolding 1 2 3 4 ..
qed

lemma set_join: "x \<in> set xs \<Longrightarrow> set x \<subseteq> set (join sep xs)"
  by (induction sep xs rule: join.induct) auto

lemma join_not_blank:
  assumes "buf \<noteq> []" and "\<forall>x \<in> set buf. strip x \<noteq> []"
  shows "strip (join sep buf) \<noteq> []"
proof -
  obtain x where x: "x \<in> set buf" using assms(1) by (cases buf) auto
  with assms(2) obtain c where "c \<in> set x" "\<not> char_isspace c" by (auto simp: strip_eq_Nil)
  with set_join[OF x, of sep] show ?thesis by (auto simp: strip_eq_Nil)
qed

lemma is_heading_returns: "strip line \<noteq> [] \<Longrightarrow> \<exists>b. is_heading line = Inr b"
  by (cases "strip line") (auto simp: is_heading_def Let_def strip_Nil)

lemma flush_eq: "\<exists>st'. flush (pc, buf, st) = (pc @ paragraph_of buf, [], st')"
  by (simp add: paragraph_of_def Let_def)

lemma flush_flush: "flush (flush s) = flush s"
  by (cases s) (simp add: Let_def)

lemma lines_loop_blank:
  "strip l = [] \<Longrightarrow> lines_loop (l # ls) s = lines_loop ls (flush s)"
  by (simp add: Let_def)

lemma lines_loop_heading:
  "strip l \<noteq> [] \<Longrightarrow> is_heading (strip l) = Inr True \<Longrightarrow> flush s = (pc, buf, st) \<Longrightarrow>
   lines_loop (l # ls) s =
     lines_loop ls (pc @ [Heading (strip l) (determine_heading_level (strip l))], buf,
       st\<lparr>total_headings := total_headings st + 1\<rparr>)"
  by (simp add: Let_def)

lemma lines_loop_para:
  "strip l \<noteq> [] \<Longrightarrow> is_heading (strip l) = Inr False \<Longrightarrow>
   lines_loop (l # ls) (pc, buf, st) = lines_loop ls (pc, buf @ [strip l], st)"
  by (simp add: Let_def)

lemma lines_loop_raise:
  "strip l \<noteq> [] \<Longrightarrow> is_heading (strip l) = Inl e \<Longrightarrow> lines_loop (l # ls) s = Inl e"
  by (simp add: Let_def)

lemma lines_loop_append:
  "lines_loop (xs @ ys) s =
     (case lines_loop xs s of Inl e \<Rightarrow> Inl e | Inr s' \<Rightarrow> lines_loop ys s')"
  by (induction xs arbitrary: s)
     (simp_all add: Let_def split: sum.splits bool.splits prod.splits)

declare flush.simps [simp del]
declare lines_loop.simps(2) [simp del]

lemma lines_loop_body:
  "\<forall>l \<in> set run. body_line l \<Longrightarrow>
   lines_loop run (pc, buf, st) = Inr (pc, buf @ map strip run, st)"
  by (induction run arbitrary: buf) (simp_all add: body_line_def lines_loop_para)

lemma not_body_cases:
  assumes "\<not> body_line l"
  obtains "strip l = []"
  | "strip l \<noteq> []" "is_heading (strip l) = Inr True"
proof -
  have "strip l \<noteq> [] \<Longrightarrow> is_heading (strip l) = Inr True"
  proof -
    assume ne: "strip l \<noteq> []"
    then have "strip (strip l) \<noteq> []" by (simp add: strip_strip)
    then obtain b where "is_heading (strip l) = Inr b" using is_heading_returns by blast
    with assms ne show ?thesis by (cases b) (simp_all add: body_line_def)
  qed
  then show thesis using that by blast
qed

lemma lines_loop_flush_first:
  assumes "\<not> body_line l"
  shows "lines_loop (l # ls) s = lines_loop (l # ls) (flush s)"
  using assms
proof (cases rule: not_body_cases)
  case 1
  then show ?thesis by (simp add: lines_loop_blank flush_flush)
next
  case 2
  obtain pc buf st where f: "flush s = (pc, buf, st)" by (cases "flush s") auto
  have ff: "flush (flush s) = (pc, buf, st)" unfolding flush_flush by (rule f)
  show ?thesis
    unfolding lines_loop_heading[OF 2 f] lines_loop_heading[OF 2 ff] ..
qed

lemma lines_loop_frame:
  "\<exists>ext buf'. \<forall>pc st. \<exists>st'. lines_loop ls (pc, buf, st) = Inr (pc @ ext, buf', st')"
proof (induction ls arbitrary: buf)
  case Nil
  have "\<forall>pc st. \<exists>st'. lines_loop [] (pc, buf, st) = Inr (pc @ [], buf, st')" by simp
  then show ?case by blast
next
  case (Cons l ls)
  show ?case
  proof (cases "body_line l")
    case True
    obtain ext buf' where
      ih: "\<And>pc st. \<exists>st'. lines_loop ls (pc, buf @ [strip l], st) = Inr (pc @ ext, buf', st')"
      using Cons.IH[of "buf @ [strip l]"] by blast
    have "\<exists>st'. lines_loop (l # ls) (pc, buf, st) = Inr (pc @ ext, buf', st')" for pc st
      using ih[of pc st] True by (simp add: body_line_def lines_loop_para)
    then show ?thesis by blast
  next
    case False
    obtain ext buf' where
      ih: "\<And>pc st. \<exists>st'. lines_loop ls (pc, [], st) = Inr (pc @ ext, buf', st')"
      using Cons.IH[of "[]"] by blast
    from False show ?thesis
    proof (cases rule: not_body_cases)
      case 1
      have "\<exists>st'. lines_loop (l # ls) (pc, buf, st) = Inr (pc @ (paragraph_of buf @ ext), buf', st')"
        for pc st
      proof -
        obtain st1 where "flush (pc, buf, st) = (pc @ paragraph_of buf, [], st1)"
          using flush_eq by blast
        then show ?thesis using ih[of "pc @ paragraph_of buf" st1] 1
          by (simp add: lines_loop_blank)
      qed
      then show ?thesis by blast
    next
      case 2
      let ?h = "Heading (strip l) (determine_heading_level (strip l))"
      have "\<exists>st'. lines_loop (l # ls) (pc, buf, st) =
              Inr (pc @ (paragraph_of buf @ ?h # ext), buf', st')" for pc st
      proof -
        obtain st1 where "flush (pc, buf, st) = (pc @ paragraph_of buf, [], st1)"
          using flush_eq by blast
        then show ?thesis
          using ih[of "(pc @ paragraph_of buf) @ [?h]" "st1\<lparr>total_headings := total_headings st1 + 1\<rparr>"] 2
          by (simp add: lines_loop_heading)
      qed
      then show ?thesis by blast
    qed
  qed
qed

lemma lines_loop_ends_flushed:
  assumes "lines_loop pre s = Inr (pc', buf', st')" and "pre \<noteq> []" and "\<not> body_line (last pre)"
  shows "buf' = []"
  using assms
proof (induction pre arbitrary: s)
  case Nil
  then show ?case by simp
next
  case (Cons l ls)
  show ?case
  proof (cases "ls = []")
    case True
    obtain pc buf st where s: "s = (pc, buf, st)" by (cases s) auto
    obtain st1 where f: "flush s = (pc @ paragraph_of buf, [], st1)"
      using flush_eq s by blast
    from Cons.prems True have "\<not> body_line l" by simp
    then show ?thesis
    proof (cases rule: not_body_cases)
      case 1
      then show ?thesis using Cons.prems(1) True f by (simp add: lines_loop_blank)
    next
      case 2
      then show ?thesis using Cons.prems(1) True f by (simp add: lines_loop_heading)
    qed
  next
    case False
    obtain s1 where s1: "lines_loop [l] s = Inr s1" and rest: "lines_loop ls s1 = Inr (pc', buf', st')"
      using Cons.prems(1) lines_loop_append[of "[l]" ls s] by (auto split: sum.splits)
    show ?thesis using Cons.IH[OF rest False] Cons.prems(3) False by simp
  qed
qed

lemma page_blocks_frame:
  "\<exists>s'. lines_loop ls (pc, [], st) = Inr s' \<and> fst (flush s') = pc @ page_blocks ls"
proof -
  obtain ext buf' where
    fr: "\<And>pc st. \<exists>st'. lines_loop ls (pc, [], st) = Inr (pc @ ext, buf', st')"
    using lines_loop_frame[of ls "[]"] by blast
  obtain st0 where "lines_loop ls ([], [], initial_statistics) = Inr ([] @ ext, buf', st0)"
    using fr[of "[]" initial_statistics] by blast
  moreover obtain st0' where "flush (ext, buf', st0) = (ext @ paragraph_of buf', [], st0')"
    using flush_eq by blast
  ultimately have pb: "page_blocks ls = ext @ paragraph_of buf'"
    by (simp add: page_blocks_def)
  obtain st1 where l: "lines_loop ls (pc, [], st) = Inr (pc @ ext, buf', st1)"
    using fr[of pc st] by blast
  obtain st1' where "flush (pc @ ext, buf', st1) = ((pc @ ext) @ paragraph_of buf', [], st1')"
    using flush_eq by blast
  with l pb show ?thesis by simp
qed

lemma page_blocks_Nil: "page_blocks [] = []"
  by (simp add: page_blocks_def flush.simps)

lemma page_blocks_run:
  assumes "run \<noteq> []" and "\<forall>l \<in> set run. body_line l"
    and "pre = [] \<or> \<not> body_line (last pre)"
    and "post = [] \<or> \<not> body_line (hd post)"
  shows "page_blocks (pre @ run @ post) =
         page_blocks pre @ [Paragraph (join '' '' (map strip run))] @ page_blocks post"
proof -
  let ?B = "map strip run"
  have B: "paragraph_of ?B = [Paragraph (join '' '' ?B)]"
    using assms(1) by (simp add: paragraph_of_def)
  obtain s1 where l1: "lines_loop pre ([], [], initial_statistics) = Inr s1"
    and f1: "fst (flush s1) = page_blocks pre"
    using page_blocks_frame[of pre "[]" initial_statistics] by auto
  obtain P B1 st1 where s1: "s1 = (P, B1, st1)" by (cases s1) auto
  have "B1 = []"
  proof (cases "pre = []")
    case True
    with l1 s1 show ?thesis by simp
  next
    case False
    with assms(3) l1 s1 show ?thesis using lines_loop_ends_flushed by blast
  qed
  with f1 s1 have P: "P = page_blocks pre"
    using flush_eq[of P "[]" st1] by (auto simp: paragraph_of_def)
  have l2: "lines_loop (pre @ run) ([], [], initial_statistics) = Inr (P, ?B, st1)"
    using l1 s1 \<open>B1 = []\<close> lines_loop_body[OF assms(2), of P "[]" st1]
    by (simp add: lines_loop_append)
  obtain st2 where f2: "flush (P, ?B, st1) = (P @ paragraph_of ?B, [], st2)"
    using flush_eq by blast
  have "\<exists>s'. lines_loop post (P, ?B, st1) = Inr s' \<and>
          fst (flush s') = (P @ paragraph_of ?B) @ page_blocks post"
  proof (cases post)
    case Nil
    then show ?thesis using f2 by (simp add: page_blocks_Nil)
  next
    case (Cons l post')
    with assms(4) have "\<not> body_line l" by simp
    then have "lines_loop post (P, ?B, st1) = lines_loop post (P @ paragraph_of ?B, [], st2)"
      using lines_loop_flush_first[of l post' "(P, ?B, st1)"] Cons f2 by simp
    then show ?thesis
      using page_blocks_frame[of post "P @ paragraph_of ?B" st2] by simp
  qed
  then obtain s' where l3: "lines_loop post (P, ?B, st1) = Inr s'"
    and f3: "fst (flush s') = (P @ paragraph_of ?B) @ page_blocks post" by blast
  have "lines_loop (pre @ run @ post) ([], [], initial_statistics) = Inr s'"
    using l2 l3 lines_loop_append[of "pre @ run" post "([], [], initial_statistics)"] by simp
  then show ?thesis
    using f3 P B by (simp add: page_blocks_def)
qed

lemma page_blocks_empty_text: "page_blocks [[]] = []"
  by (simp add: page_blocks_def lines_loop_blank strip_Nil flush.simps)

lemma pages_loop_frame:
  "\<exists>st'. pages_loop pages (c, st) = Inr (c @ document_blocks pages, st')"
proof (induction pages arbitrary: c st)
  case Nil
  show ?case by (simp add: document_blocks_def)
next
  case (Cons page pages)
  show ?case
  proof (cases "page = []")
    case True
    then show ?thesis
      using Cons.IH[of c st] by (simp add: document_blocks_def page_blocks_empty_text)
  next
    case False
    obtain s' where l: "lines_loop (split_on newline [] page) ([], [], st) = Inr s'"
      and f: "fst (flush s') = page_blocks (split_on newline [] page)"
      using page_blocks_frame[of "split_on newline [] page" "[]" st] by auto
    obtain pc' buf' st1 where fl: "flush s' = (pc', buf', st1)" by (cases "flush s'") auto
    with f have "pc' = page_blocks (split_on newline [] page)" by simp
    then show ?thesis
      using Cons.IH[of "c @ pc'" st1] False l fl by (simp add: document_blocks_def)
  qed
qed

lemma text_async_extract_content:
  "\<exists>r. text_async_extract pages = Inr r \<and> content r = document_blocks pages \<and>
       total_pages r = length pages"
proof -
  obtain st' where "pages_loop pages ([], initial_statistics) = Inr ([] @ document_blocks pages, st')"
    using pages_loop_frame by blast
  then show ?thesis by (simp add: text_async_extract_def)
qed

lemma document_blocks_append:
  "document_blocks (xs @ ys) = document_blocks xs @ document_blocks ys"
  by (simp add: document_blocks_def)

lemma flush_not_blank:
  assumes "\<forall>b \<in> set pc. strip (block_text b) \<noteq> []" and "\<forall>x \<in> set buf. strip x \<noteq> []"
    and "flush (pc, buf, st) = (pc', buf', st')"
  shows "(\<forall>b \<in> set pc'. strip (block_text b) \<noteq> []) \<and> (\<forall>x \<in> set buf'. strip x \<noteq> [])"
proof -
  from assms(3) have e: "pc' = pc @ paragraph_of buf" "buf' = []"
    using flush_eq[of pc buf st] by auto
  have "\<forall>b \<in> set (paragraph_of buf). strip (block_text b) \<noteq> []"
    using join_not_blank[of buf "'' ''"] assms(2) by (simp add: paragraph_of_def)
  with e assms(1) show ?thesis by auto
qed

lemma lines_loop_not_blank:
  assumes "lines_loop ls (pc, buf, st) = Inr (pc', buf', st')"
    and "\<forall>b \<in> set pc. strip (block_text b) \<noteq> []" and "\<forall>x \<in> set buf. strip x \<noteq> []"
  shows "(\<forall>b \<in> set pc'. strip (block_text b) \<noteq> []) \<and> (\<forall>x \<in> set buf'. strip x \<noteq> [])"
  using assms
proof (induction ls arbitrary: pc buf st)
  case Nil
  then show ?case by simp
next
  case (Cons l ls)
  obtain pc1 buf1 st1 where f: "flush (pc, buf, st) = (pc1, buf1, st1)"
    by (cases "flush (pc, buf, st)") auto
  note f1 = flush_not_blank[OF Cons.prems(2,3) f]
  show ?case
  proof (cases "body_line l")
    case True
    then have "lines_loop ls (pc, buf @ [strip l], st) = Inr (pc', buf', st')"
      using Cons.prems(1) by (simp add: body_line_def lines_loop_para)
    moreover have "\<forall>x \<in> set (buf @ [strip l]). strip x \<noteq> []"
      using Cons.prems(3) True by (simp add: body_line_def strip_strip)
    ultimately show ?thesis using Cons.IH Cons.prems(2) by blast
  next
    case False
    then show ?thesis
    proof (cases rule: not_body_cases)
      case 1
      then have "lines_loop ls (pc1, buf1, st1) = Inr (pc', buf', st')"
        using Cons.prems(1) f by (simp add: lines_loop_blank)
      then show ?thesis using Cons.IH f1 by blast
    next
      case 2
      let ?h = "Heading (strip l) (determine_heading_level (strip l))"
      have "lines_loop ls (pc1 @ [?h], buf1, st1\<lparr>total_headings := total_headings st1 + 1\<rparr>)
              = Inr (pc', buf', st')"
        using Cons.prems(1) lines_loop_heading[OF 2 f, of ls] by simp
      moreover have "\<forall>b \<in> set (pc1 @ [?h]). strip (block_text b) \<noteq> []"
        using f1 2(1) by (simp add: strip_strip)
      ultimately show ?thesis using Cons.IH f1 by blast
    qed
  qed
qed

lemma page_blocks_not_blank: "\<forall>b \<in> set (page_blocks ls). strip (block_text b) \<noteq> []"
proof -
  obtain s' where l: "lines_loop ls ([], [], initial_statistics) = Inr s'"
    and f: "fst (flush s') = [] @ page_blocks ls"
    using page_blocks_frame[of ls "[]" initial_statistics] by blast
  obtain pc buf st where s': "s' = (pc, buf, st)" by (cases s') auto
  obtain pc1 buf1 st1 where fl: "flush (pc, buf, st) = (pc1, buf1, st1)"
    by (cases "flush (pc, buf, st)") auto
  have "(\<forall>b \<in> set pc. strip (block_text b) \<noteq> []) \<and> (\<forall>x \<in> set buf. strip x \<noteq> [])"
    using lines_loop_not_blank[of ls "[]" "[]" initial_statistics pc buf st] l s' by simp
  then have "\<forall>b \<in> set pc1. strip (block_text b) \<noteq> []"
    using flush_not_blank[OF _ _ fl] by blast
  with f s' fl show ?thesis by simp
qed

lemma document_blocks_not_blank: "\<forall>b \<in> set (document_blocks pages). strip (block_text b) \<noteq> []"
  using page_blocks_not_blank by (auto simp: document_blocks_def)

text \<open>
  Claim C5, as stated, fails. The page with the two lines \<open>a \<close> (with a trailing
  space) and \<open> b\<close> (with a leading space), neither blank nor a heading, yields the one
  paragraph \<open>a b\<close>, while these lines joined by a single space are \<open>a   b\<close>: every line
  is trimmed before it enters the buffer.
\<close>

theorem paragraph_lines_are_trimmed:
  "split_on newline [] (''a '' @ [newline] @ '' b'') = [''a '', '' b''] \<and>
   body_line ''a '' \<and> body_line '' b'' \<and>
   text_async_extract [''a '' @ [newline] @ '' b''] =
     Inr \<lparr>content = [Paragraph ''a b''],
          statistics = \<lparr>total_words = 2, total_paragraphs = 1, total_headings = 0,
            total_list_items = 0, total_sections = 0, hierarchy_depth = 0\<rparr>,
          total_pages = 1\<rparr> \<and>
   join '' '' [''a '', '' b''] = ''a   b''"
  by code_simp

text \<open>
  Claim C5, amended. Let the lines of a page contain a run of consecutive lines that
  are neither blank nor headings, with a blank line, a heading or the start of the page
  before it and a blank line, a heading or the end of the page after it. Then
  \<open>async_extract\<close> returns, and the content of the document is the blocks of the pages
  before, the blocks of the lines before the run, exactly one paragraph block for the
  run, whose text is the lines of the run, each trimmed of the whitespace at its ends,
  joined by single spaces, the blocks of the lines after the run, and the blocks of the
  pages after. The text of every block of the content is non-blank: a blank line is
  never emitted.
\<close>

theorem paragraph_buffering:
  assumes "split_on newline [] text = pre @ run @ post"
    and "run \<noteq> []" and "\<forall>l \<in> set run. body_line l"
    and "pre = [] \<or> \<not> body_line (last pre)"
    and "post = [] \<or> \<not> body_line (hd post)"
  shows "\<exists>r. text_async_extract (before @ [text] @ after) = Inr r \<and>
           content r =
             document_blocks before @
             page_blocks pre @ [Paragraph (join '' '' (map strip run))] @ page_blocks post @
             document_blocks after \<and>
           (\<forall>b \<in> set (content r). strip (block_text b) \<noteq> [])"
proof -
  obtain r where r: "text_async_extract (before @ [text] @ after) = Inr r"
    and c: "content r = document_blocks (before @ [text] @ after)"
    using text_async_extract_content by blast
  have c': "content r = document_blocks before @ document_blocks [text] @ document_blocks after"
    using c unfolding document_blocks_append .
  have "document_blocks [text] =
        page_blocks pre @ [Paragraph (join '' '' (map strip run))] @ page_blocks post"
    using page_blocks_run[OF assms(2-5)] assms(1) by (simp add: document_blocks_def)
  then have "content r = document_blocks before @
             page_blocks pre @ [Paragraph (join '' '' (map strip run))] @ page_blocks post @
             document_blocks after"
    unfolding c' by simp
  moreover have "\<forall>b \<in> set (content r). strip (block_text b) \<noteq> []"
    unfolding c by (rule document_blocks_not_blank)
  ultimately show ?thesis using r by blast
qed

theorem paragraph_buffering_witness:
  "split_on newline []
     (''1. Introduction'' @ [newline] @ ''body line one'' @ [newline] @
      ''  and line two  '' @ [newline] @ [newline] @ ''x'') =
     [''1. Introduction''] @ [''body line one'', ''  and line two  ''] @ [[], ''x''] \<and>
   body_line ''body line one'' \<and> body_line ''  and line two  '' \<and>
   \<not> body_line ''1. Introduction'' \<and> \<not> body_line [] \<and>
   (\<exists>r. text_async_extract
          ([] @
           [''1. Introduction'' @ [newline] @ ''body line one'' @ [newline] @
            ''  and line two  '' @ [newline] @ [newline] @ ''x''] @
           [''ABC'']) = Inr r \<and>
        content r =
          [Heading ''1. Introduction'' 1, Paragraph ''body line one and line two'',
           Paragraph ''x'', Heading ''ABC'' 1])"
proof -
  have lines: "split_on newline []
     (''1. Introduction'' @ [newline] @ ''body line one'' @ [newline] @
      ''  and line two  '' @ [newline] @ [newline] @ ''x'') =
     [''1. Introduction''] @ [''body line one'', ''  and line two  ''] @ [[], ''x'']"
    by code_simp
  have body: "body_line ''body line one''" "body_line ''  and line two  ''"
    by code_simp+
  have other: "\<not> body_line ''1. Introduction''" "\<not> body_line []"
    by code_simp+
  have blocks: "page_blocks [''1. Introduction''] = [Heading ''1. Introduction'' 1]"
    "page_blocks [[], ''x''] = [Paragraph ''x'']"
    "document_blocks [] = []" "document_blocks [''ABC''] = [Heading ''ABC'' 1]"
    by code_simp+
  have joined: "strip ''body line one'' = ''body line one''"
    "strip ''  and line two  '' = ''and line two''"
    by code_simp+
  have "\<exists>r. text_async_extract
          ([] @
           [''1. Introduction'' @ [newline] @ ''body line one'' @ [newline] @
            ''  and line two  '' @ [newline] @ [newline] @ ''x''] @
           [''ABC'']) = Inr r \<and>
        content r =
          [Heading ''1. Introduction'' 1, Paragraph ''body line one and line two'',
           Paragraph ''x'', Heading ''ABC'' 1]"
    using paragraph_buffering [OF lines, of "[]" "[''ABC'']"] body other
    by (simp add: blocks joined) blast
  then show ?thesis
    by (intro conjI lines body other)
qed

end
